theory Spec2Isabelle
  imports Main "HOL-Library.Word"
begin

section \<open>MAScontrol: the wire codec, the connection, the session loop and the history buffer\<close>

text \<open>
  A shallow embedding of \<^verbatim>\<open>mas.py\<close> (Python 2). Python's \<^verbatim>\<open>str\<close> is a byte string, so a
  message is a \<^typ>\<open>string\<close> (a list of 8-bit characters). Every \<^verbatim>\<open>raise\<close> of the source, and
  every exception of a library call the source relies on, is a value of \<open>error\<close>.

  The embedding covers \<open>MASTCPHandler\<close> (the codec, \<open>send_command\<close>, \<open>test_connection\<close>) from
  the opened socket on, the loop of \<open>MASTCPThread\<close> (\<open>poll_status\<close>, \<open>retry_connection\<close>,
  \<open>run_connection\<close> and one pass of \<open>run\<close>), and the class \<open>History\<close>. The window, the plot,
  the offline mode and the reading of the configuration files are left out.
\<close>

datatype error =
    ValueError
  | IndexError
  | TypeError
  | AttributeError
  | RuntimeError
  | OverflowError
  | SocketTimeout  \<comment> \<open>\<^verbatim>\<open>socket.timeout\<close>, a subclass of \<^verbatim>\<open>socket.error\<close>\<close>
  | SocketError    \<comment> \<open>any other \<^verbatim>\<open>socket.error\<close>\<close>
  | ClockEnd       \<comment> \<open>not an exception: the model's clock script has no reading left\<close>

subsection \<open>Python built-ins used by the codec\<close>

text \<open>\<^verbatim>\<open>chr(i)\<close> raises ValueError outside \<^verbatim>\<open>range(256)\<close>.\<close>

definition chr_py :: "int \<Rightarrow> error + char" where
  "chr_py i = (if 0 \<le> i \<and> i < 256 then Inr (char_of (nat i)) else Inl ValueError)"

definition ord_py :: "char \<Rightarrow> int" where
  "ord_py c = int (of_char c)"

text \<open>A list comprehension \<^verbatim>\<open>[chr(f(n)) for n in message]\<close>: the first failing element raises.\<close>

fun chr_each :: "(int \<Rightarrow> int) \<Rightarrow> string \<Rightarrow> error + string" where
  "chr_each f [] = Inr []"
| "chr_each f (n # ns) =
     (case chr_py (f (ord_py n)) of
        Inl e \<Rightarrow> Inl e
      | Inr c \<Rightarrow> (case chr_each f ns of Inl e \<Rightarrow> Inl e | Inr cs \<Rightarrow> Inr (c # cs)))"

text \<open>
  \<^verbatim>\<open>str.split()\<close> without arguments: the tokens are the maximal runs of non-whitespace bytes;
  whitespace is space, \<^verbatim>\<open>\t \n \v \f \r\<close>.
\<close>

definition isspace :: "char \<Rightarrow> bool" where
  "isspace c = (of_char c \<in> {9, 10, 11, 12, 13, 32 :: nat})"

fun split_from :: "string \<Rightarrow> string \<Rightarrow> string list" where
  "split_from tok [] = (if tok = [] then [] else [tok])"
| "split_from tok (c # cs) =
     (if isspace c then (if tok = [] then split_from [] cs else tok # split_from [] cs)
      else split_from (tok @ [c]) cs)"

definition split :: "string \<Rightarrow> string list" where
  "split s = split_from [] s"

text \<open>\<^verbatim>\<open>s[:-2]\<close>: everything but the last two bytes (empty when there are at most two).\<close>

definition drop_last2 :: "'a list \<Rightarrow> 'a list" where
  "drop_last2 s = take (length s - 2) s"

subsection \<open>MASTCPHandler: encode_message and decode_message\<close>

definition encode_message :: "string \<Rightarrow> error + string" where
  "encode_message message =
     (case chr_each (\<lambda>n. n + 128) message of
        Inl e \<Rightarrow> Inl e
      | Inr encoded_bytes \<Rightarrow> Inr (encoded_bytes @ [CHR 0x8D]))"

definition decode_message :: "string \<Rightarrow> error + string list" where
  "decode_message message =
     (case chr_each (\<lambda>n. n - 128) message of
        Inl e \<Rightarrow> Inl e
      | Inr decoded_bytes \<Rightarrow> Inr (split (drop_last2 decoded_bytes)))"


subsection \<open>History: the data\<close>

text \<open>
  A \<^verbatim>\<open>datetime\<close> is a point of the time line and a \<^verbatim>\<open>timedelta\<close> a signed distance on it,
  both counted in microseconds (the resolution of Python's types), so subtraction and
  comparison are those of \<^typ>\<open>int\<close>. A datetime is counted from \<^verbatim>\<open>datetime.min\<close>, the
  first microsecond of the year 1; \<^verbatim>\<open>datetime.max\<close>, the last microsecond of the year 9999,
  is 3652059 days later, less one microsecond. Python has no datetime outside these two:
  arithmetic that would leave them raises OverflowError. The time array is
  \<^verbatim>\<open>np.zeros(dtype=np.object)\<close>: a slot holds the integer \<^verbatim>\<open>0\<close> until a datetime is stored in
  it. The value array is a masked array of 64-bit integers.
\<close>

type_synonym datetime = int
type_synonym timedelta = int

definition datetime_min :: datetime where
  "datetime_min = 0"

definition datetime_max :: datetime where
  "datetime_max = 3652059 * 86400000000 - 1"

definition in_range :: "datetime \<Rightarrow> bool" where
  "in_range t \<longleftrightarrow> datetime_min \<le> t \<and> t \<le> datetime_max"

datatype slot = Zero | DateTime datetime

datatype sample = Val "64 word" | Masked

record history =
  history_length :: timedelta
  log_dir :: string
  can_save :: bool
  times_arr :: "slot list"      \<comment> \<open>\<^verbatim>\<open>self.times\<close>\<close>
  values_arr :: "sample list"   \<comment> \<open>\<^verbatim>\<open>self.values\<close>\<close>
  filled_points :: nat
  logging :: bool
  log_start :: datetime
  log_end :: datetime

text \<open>
  The file system: the content of every existing file, by path. Opening a file for writing
  always succeeds here; that the log directory can be written is what \<open>can_save\<close> records.
\<close>

type_synonym files = "string \<rightharpoonup> string"

definition history_buffer :: nat where
  "history_buffer = 1000"

subsection \<open>Python and numpy operations used by History\<close>

text \<open>\<^verbatim>\<open>xs[i]\<close>: a negative index counts from the end; out of range raises IndexError.\<close>

definition item :: "'a list \<Rightarrow> int \<Rightarrow> error + 'a" where
  "item xs i =
     (let j = (if i < 0 then int (length xs) + i else i)
      in if 0 \<le> j \<and> j < int (length xs) then Inr (xs ! nat j) else Inl IndexError)"

text \<open>A slice bound is clipped to the array: \<^verbatim>\<open>xs[a:b]\<close> never raises.\<close>

definition clip :: "'a list \<Rightarrow> int \<Rightarrow> nat" where
  "clip xs i =
     (if i < 0 then nat (max 0 (int (length xs) + i)) else min (nat i) (length xs))"

definition slice :: "'a list \<Rightarrow> int \<Rightarrow> int \<Rightarrow> 'a list" where
  "slice xs a b = drop (clip xs a) (take (clip xs b) xs)"

definition slice_from :: "'a list \<Rightarrow> int \<Rightarrow> 'a list" where
  "slice_from xs a = drop (clip xs a) xs"

text \<open>
  \<^verbatim>\<open>dst[:k] = src\<close> on numpy arrays: the lengths must agree, except that a one-element
  source is broadcast; otherwise ValueError.
\<close>

definition assign_prefix :: "'a list \<Rightarrow> int \<Rightarrow> 'a list \<Rightarrow> error + 'a list" where
  "assign_prefix dst k src =
     (let n = clip dst k
      in if length src = n then Inr (src @ drop n dst)
         else if length src = 1 then Inr (replicate n (hd src) @ drop n dst)
         else Inl ValueError)"

text \<open>
  Arithmetic and comparison on slots. In Python 2 a datetime and an integer can neither be
  subtracted nor ordered (TypeError), and neither can an integer and a timedelta be ordered.
  A datetime minus a timedelta is a datetime, or OverflowError (\<^verbatim>\<open>date value out of range\<close>)
  when the result would lie before \<^verbatim>\<open>datetime.min\<close> or after \<^verbatim>\<open>datetime.max\<close>. The difference
  of two datetimes is a timedelta; it always exists.
\<close>

definition span_ge :: "slot \<Rightarrow> slot \<Rightarrow> timedelta \<Rightarrow> error + bool" where
  \<comment> \<open>\<^verbatim>\<open>a - b >= d\<close>\<close>
  "span_ge a b d =
     (case (a, b) of
        (DateTime x, DateTime y) \<Rightarrow> Inr (x - y \<ge> d)
      | _ \<Rightarrow> Inl TypeError)"

definition minus_delta :: "slot \<Rightarrow> timedelta \<Rightarrow> error + slot" where
  \<comment> \<open>\<^verbatim>\<open>a - d\<close>\<close>
  "minus_delta a d =
     (case a of
        DateTime x \<Rightarrow> (if in_range (x - d) then Inr (DateTime (x - d)) else Inl OverflowError)
      | Zero \<Rightarrow> Inl TypeError)"

definition slot_less :: "slot \<Rightarrow> slot \<Rightarrow> error + bool" where
  "slot_less a b =
     (case (a, b) of
        (DateTime x, DateTime y) \<Rightarrow> Inr (x < y)
      | (Zero, Zero) \<Rightarrow> Inr False
      | _ \<Rightarrow> Inl TypeError)"

text \<open>
  \<^verbatim>\<open>a.searchsorted(v, side)\<close>: numpy's binary search between \<open>min_idx\<close> and \<open>max_idx\<close>.
  On the left side the search moves right of \<open>mid_idx\<close> when \<open>a[mid_idx] < v\<close>, on the right
  side when \<open>a[mid_idx] <= v\<close>, that is, unless \<open>v < a[mid_idx]\<close>.
\<close>

datatype side = Left | Right

definition goes_right :: "side \<Rightarrow> slot \<Rightarrow> slot \<Rightarrow> error + bool" where
  "goes_right sd mid_val key_val =
     (case sd of
        Left \<Rightarrow> slot_less mid_val key_val
      | Right \<Rightarrow> (case slot_less key_val mid_val of Inl e \<Rightarrow> Inl e | Inr b \<Rightarrow> Inr (\<not> b)))"

function binsearch :: "side \<Rightarrow> slot list \<Rightarrow> slot \<Rightarrow> nat \<Rightarrow> nat \<Rightarrow> error + nat" where
  "binsearch sd arr key_val min_idx max_idx =
     (if min_idx < max_idx then
        (let mid_idx = min_idx + (max_idx - min_idx) div 2
         in case goes_right sd (arr ! mid_idx) key_val of
              Inl e \<Rightarrow> Inl e
            | Inr True \<Rightarrow> binsearch sd arr key_val (mid_idx + 1) max_idx
            | Inr False \<Rightarrow> binsearch sd arr key_val min_idx mid_idx)
      else Inr min_idx)"
  by pat_completeness auto
termination
  by (relation "measure (\<lambda>(sd, arr, key_val, min_idx, max_idx). max_idx - min_idx)") auto

declare binsearch.simps [simp del]

definition searchsorted :: "slot list \<Rightarrow> slot \<Rightarrow> side \<Rightarrow> error + nat" where
  "searchsorted arr v sd = binsearch sd arr v 0 (length arr)"

text \<open>\<^verbatim>\<open>str(v)\<close> of an array element and \<^verbatim>\<open>'{:>6}'.format(s)\<close>.\<close>

fun digits :: "nat \<Rightarrow> string" where
  "digits n = (if n < 10 then [char_of (48 + n)] else digits (n div 10) @ [char_of (48 + n mod 10)])"

declare digits.simps [simp del]

definition str_int :: "int \<Rightarrow> string" where
  "str_int i = (if i < 0 then CHR ''-'' # digits (nat (- i)) else digits (nat i))"

definition str_sample :: "sample \<Rightarrow> string" where
  "str_sample v = (case v of Val w \<Rightarrow> str_int (sint w) | Masked \<Rightarrow> ''--'')"

definition rjust :: "nat \<Rightarrow> string \<Rightarrow> string" where
  "rjust n s = replicate (n - length s) CHR '' '' @ s"

text \<open>\<^verbatim>\<open>os.path.join(a, b)\<close> of \<^verbatim>\<open>posixpath\<close>.\<close>

definition path_join :: "string \<Rightarrow> string \<Rightarrow> string" where
  "path_join a b =
     (if b \<noteq> [] \<and> hd b = CHR ''/'' then b
      else if a = [] \<or> last a = CHR ''/'' then a @ b
      else a @ ''/'' @ b)"


subsection \<open>History: the methods\<close>

text \<open>
  A method takes the object and, when it touches files, the file system, and returns its
  outcome together with the object and the file system as the call leaves them, also when
  it raises. \<^verbatim>\<open>datetime.now()\<close> is the argument \<open>now\<close>. \<^verbatim>\<open>time.strftime\<close> is the
  argument \<open>strftime\<close> (the rendering of a datetime under the one format the code uses);
  it is a total function here, the code rendering clock readings only.
\<close>

definition allocate_arrays :: "nat \<Rightarrow> slot list \<times> sample list" where
  "allocate_arrays points = (replicate points Zero, replicate points (Val 0))"

definition init :: "timedelta \<Rightarrow> string option \<Rightarrow> bool \<Rightarrow> datetime \<Rightarrow> history" where
  \<comment> \<open>\<open>dir_ok\<close> is \<^verbatim>\<open>os.path.isdir(log_dir) and os.access(log_dir, os.W_OK)\<close>\<close>
  "init hl dir dir_ok now =
     (let (ts, vs) = allocate_arrays (history_buffer * 2)
      in \<lparr> history_length = hl,
           log_dir = (case dir of None \<Rightarrow> [] | Some d \<Rightarrow> d),
           can_save = (case dir of None \<Rightarrow> True | Some d \<Rightarrow> dir_ok),
           times_arr = ts, values_arr = vs, filled_points = 0,
           logging = False, log_start = now, log_end = now \<rparr>)"

definition string_time :: "(datetime \<Rightarrow> string) \<Rightarrow> slot \<Rightarrow> error + string" where
  "string_time strftime t = (case t of DateTime x \<Rightarrow> Inr (strftime x) | Zero \<Rightarrow> Inl AttributeError)"

definition save_name :: "(datetime \<Rightarrow> string) \<Rightarrow> history \<Rightarrow> slot \<Rightarrow> slot \<Rightarrow> error + string" where
  "save_name strftime h start_time end_time =
     (case string_time strftime start_time of
        Inl e \<Rightarrow> Inl e
      | Inr s \<Rightarrow>
          (case string_time strftime end_time of
             Inl e \<Rightarrow> Inl e
           | Inr e \<Rightarrow> Inr (path_join (log_dir h) (s @ ''__'' @ e @ ''_spin_log.dat''))))"

text \<open>
  \<open>write_points\<close> appends one line \<^verbatim>\<open>'{} {:>6}\n'.format(self.string_time(t), str(v))\<close> per
  point to the open file; a point that cannot be rendered raises after the lines before it
  were written.
\<close>

definition format_line :: "string \<Rightarrow> sample \<Rightarrow> string" where
  "format_line s v = s @ '' '' @ rjust 6 (str_sample v) @ [CHR 0x0A]"

fun write_lines :: "(datetime \<Rightarrow> string) \<Rightarrow> (slot \<times> sample) list \<Rightarrow> string \<Rightarrow> (error + unit) \<times> string" where
  "write_lines strftime [] out = (Inr (), out)"
| "write_lines strftime ((t, v) # ps) out =
     (case string_time strftime t of
        Inl e \<Rightarrow> (Inl e, out)
      | Inr s \<Rightarrow> write_lines strftime ps (out @ format_line s v))"

definition write_points ::
  "(datetime \<Rightarrow> string) \<Rightarrow> history \<Rightarrow> files \<Rightarrow> string \<Rightarrow> int \<times> int \<Rightarrow> (error + unit) \<times> files" where
  "write_points strftime h fs fname write_slice =
     (let ts = slice (times_arr h) (fst write_slice) (snd write_slice);
          vs = slice (values_arr h) (fst write_slice) (snd write_slice);
          (r, out) = write_lines strftime (zip ts vs) (case fs fname of None \<Rightarrow> [] | Some c \<Rightarrow> c)
      in (r, fs(fname \<mapsto> out)))"

definition save_history :: "(datetime \<Rightarrow> string) \<Rightarrow> history \<Rightarrow> files \<Rightarrow> (error + unit) \<times> files" where
  "save_history strftime h fs =
     (if filled_points h \<le> 1 then (Inr (), fs)
      else if \<not> can_save h then (Inl RuntimeError, fs)
      else
        (case item (times_arr h) 0 of
           Inl e \<Rightarrow> (Inl e, fs)
         | Inr start_time \<Rightarrow>
        (case item (times_arr h) (int (filled_points h) - 1) of
           Inl e \<Rightarrow> (Inl e, fs)
         | Inr end_time \<Rightarrow>
        (case save_name strftime h start_time end_time of
           Inl e \<Rightarrow> (Inl e, fs)
         | Inr file_spec \<Rightarrow>
             \<comment> \<open>\<^verbatim>\<open>open(file_spec, 'w+')\<close> creates the file or empties it\<close>
             write_points strftime h (fs(file_spec \<mapsto> [])) file_spec (0, int (filled_points h))))))"

definition begin_logging :: "datetime \<Rightarrow> history \<Rightarrow> (error + unit) \<times> history" where
  "begin_logging now h =
     (if logging h then (Inl RuntimeError, h)
      else (Inr (), h\<lparr>log_start := now, log_end := now, logging := True\<rparr>))"

definition write_log ::
  "(datetime \<Rightarrow> string) \<Rightarrow> history \<Rightarrow> files \<Rightarrow> (error + unit) \<times> history \<times> files" where
  "write_log strftime h fs =
     (if \<not> logging h then (Inl RuntimeError, h, fs)
      else if \<not> can_save h then (Inl RuntimeError, h, fs)
      else
        (case save_name strftime h (DateTime (log_start h)) (DateTime (log_end h)) of
           Inl e \<Rightarrow> (Inl e, h, fs)
         | Inr old_file \<Rightarrow>
        (case item (times_arr h) (int (filled_points h) - 1) of
           Inl e \<Rightarrow> (Inl e, h, fs)
         | Inr new_end \<Rightarrow>
        (case save_name strftime h (DateTime (log_start h)) new_end of
           Inl e \<Rightarrow> (Inl e, h, fs)
         | Inr new_file \<Rightarrow>
        (case searchsorted (slice (times_arr h) 0 (int (filled_points h))) (DateTime (log_end h)) Right of
           Inl e \<Rightarrow> (Inl e, h, fs)
         | Inr start_point \<Rightarrow>
             \<comment> \<open>\<^verbatim>\<open>open(old_file, 'a+')\<close> creates the file when it is missing\<close>
             (case write_points strftime h fs old_file (int start_point, int (filled_points h)) of
                (Inl e, fs1) \<Rightarrow> (Inl e, h, fs1)
              | (Inr _, fs1) \<Rightarrow>
                  \<comment> \<open>\<^verbatim>\<open>os.rename(old_file, new_file)\<close> replaces an existing \<open>new_file\<close>\<close>
                  (case new_end of
                     DateTime t \<Rightarrow>
                       (Inr (), h\<lparr>log_end := t\<rparr>, (fs1(old_file := None))(new_file := fs1 old_file))
                   | Zero \<Rightarrow> (Inl AttributeError, h, fs1))))))))"

definition end_logging ::
  "(datetime \<Rightarrow> string) \<Rightarrow> datetime \<Rightarrow> history \<Rightarrow> files \<Rightarrow> (error + unit) \<times> history \<times> files" where
  "end_logging strftime now h fs =
     (if \<not> logging h then (Inl RuntimeError, h, fs)
      else
        (case write_log strftime h fs of
           (Inl e, h1, fs1) \<Rightarrow> (Inl e, h1, fs1)
         | (Inr _, h1, fs1) \<Rightarrow>
             (Inr (), h1\<lparr>logging := False, log_start := now, log_end := now\<rparr>, fs1)))"

definition arrays_full ::
  "(datetime \<Rightarrow> string) \<Rightarrow> history \<Rightarrow> files \<Rightarrow> (error + unit) \<times> history \<times> files" where
  "arrays_full strftime h fs =
     (case (if logging h then write_log strftime h fs else (Inr (), h, fs)) of
        (Inl e, h1, fs1) \<Rightarrow> (Inl e, h1, fs1)
      | (Inr _, h1, fs1) \<Rightarrow>
          (let old_points = length (times_arr h1) in
           case item (times_arr h1) (- 1) of
             Inl e \<Rightarrow> (Inl e, h1, fs1)
           | Inr t_last \<Rightarrow>
          (case item (times_arr h1) (int history_buffer) of
             Inl e \<Rightarrow> (Inl e, h1, fs1)
           | Inr t_block \<Rightarrow>
          (case span_ge t_last t_block (history_length h1) of
             Inl e \<Rightarrow> (Inl e, h1, fs1)
           | Inr discard \<Rightarrow>
              (let new_points = (if discard then int old_points else int old_points + int history_buffer);
                   keep = (if discard then int old_points - int history_buffer else int old_points);
                   (ts, vs) = allocate_arrays (nat new_points)
               in case assign_prefix ts keep (slice_from (times_arr h1) (- keep)) of
                    Inl e \<Rightarrow> (Inl e, h1, fs1)
                  | Inr ts1 \<Rightarrow>
                 (case assign_prefix vs keep (slice_from (values_arr h1) (- keep)) of
                    Inl e \<Rightarrow> (Inl e, h1, fs1)
                  | Inr vs1 \<Rightarrow>
                      (Inr (), h1\<lparr>filled_points := nat keep, times_arr := ts1, values_arr := vs1\<rparr>, fs1)))))))"

text \<open>
  \<open>add_point\<close> calls itself after \<open>arrays_full\<close>. The call returns at once, because
  \<open>arrays_full\<close> leaves room in the arrays it allocates.
\<close>

lemma item_nat: "item xs (int n) = (if n < length xs then Inr (xs ! n) else Inl IndexError)"
  by (simp add: item_def)

lemma assign_prefix_length: "assign_prefix dst k src = Inr r \<Longrightarrow> length r = length dst"
  by (auto simp: assign_prefix_def Let_def clip_def split: if_splits)

lemma arrays_full_room:
  assumes a: "arrays_full sf h fs = (Inr u, h1, fs1)"
  shows "filled_points h1 < length (times_arr h1)"
proof -
  obtain r0 h0 fs0 where f: "(if logging h then write_log sf h fs else (Inr (), h, fs)) = (r0, h0, fs0)"
    by (metis prod_cases3)
  obtain u0 where r0: "r0 = Inr u0"
    using a f by (cases r0) (simp_all add: arrays_full_def)
  obtain tl where tl: "item (times_arr h0) (- 1) = Inr tl"
    using a f r0 by (cases "item (times_arr h0) (- 1)") (simp_all add: arrays_full_def)
  obtain tb where tb: "item (times_arr h0) (int history_buffer) = Inr tb"
    using a f r0 tl by (cases "item (times_arr h0) (int history_buffer)") (simp_all add: arrays_full_def)
  obtain d where d: "span_ge tl tb (history_length h0) = Inr d"
    using a f r0 tl tb by (cases "span_ge tl tb (history_length h0)") (simp_all add: arrays_full_def)
  from tb have B: "history_buffer < length (times_arr h0)"
    by (simp add: item_nat split: if_splits)
  show ?thesis
  proof (cases d)
    case True
    let ?keep = "int (length (times_arr h0)) - int history_buffer"
    let ?ts = "replicate (length (times_arr h0)) Zero"
    obtain ts1 where ts1: "assign_prefix ?ts ?keep (slice_from (times_arr h0) (- ?keep)) = Inr ts1"
      using a f r0 tl tb d True
      by (cases "assign_prefix ?ts ?keep (slice_from (times_arr h0) (- ?keep))")
         (simp_all add: arrays_full_def allocate_arrays_def)
    have "filled_points h1 = nat ?keep \<and> times_arr h1 = ts1"
      using a f r0 tl tb d True ts1
      by (auto simp add: arrays_full_def allocate_arrays_def Let_def split: sum.splits)
    moreover have "length ts1 = length (times_arr h0)"
      using assign_prefix_length [OF ts1] by simp
    ultimately show ?thesis
      using B by (simp add: history_buffer_def)
  next
    case False
    let ?keep = "int (length (times_arr h0))"
    let ?ts = "replicate (length (times_arr h0) + history_buffer) Zero"
    obtain ts1 where ts1: "assign_prefix ?ts ?keep (slice_from (times_arr h0) (- ?keep)) = Inr ts1"
      using a f r0 tl tb d False
      by (cases "assign_prefix ?ts ?keep (slice_from (times_arr h0) (- ?keep))")
         (simp_all add: arrays_full_def allocate_arrays_def nat_add_distrib)
    have "filled_points h1 = nat ?keep \<and> times_arr h1 = ts1"
      using a f r0 tl tb d False ts1
      by (auto simp add: arrays_full_def allocate_arrays_def nat_add_distrib Let_def split: sum.splits)
    moreover have "length ts1 = length (times_arr h0) + history_buffer"
      using assign_prefix_length [OF ts1] by simp
    ultimately show ?thesis
      by (simp add: history_buffer_def)
  qed
qed

function add_point ::
  "(datetime \<Rightarrow> string) \<Rightarrow> history \<Rightarrow> files \<Rightarrow> datetime \<Rightarrow> sample \<Rightarrow> (error + unit) \<times> history \<times> files" where
  "add_point strftime h fs time val =
     (if filled_points h < length (times_arr h) then
        (let h1 = h\<lparr>times_arr := (times_arr h)[filled_points h := DateTime time]\<rparr>
         in if filled_points h < length (values_arr h) then
              (Inr (), h1\<lparr>values_arr := (values_arr h)[filled_points h := val],
                          filled_points := filled_points h + 1\<rparr>, fs)
            else (Inl IndexError, h1, fs))
      else
        (case arrays_full strftime h fs of
           (Inl e, h1, fs1) \<Rightarrow> (Inl e, h1, fs1)
         | (Inr _, h1, fs1) \<Rightarrow> add_point strftime h1 fs1 time val))"
  by pat_completeness auto
termination add_point
  by (relation "measure (\<lambda>(strftime, h, fs, time, val).
                  if filled_points h < length (times_arr h) then 0 else 1)")
     (auto dest: arrays_full_room arrays_full_room [OF sym])

declare add_point.simps [simp del]

text \<open>A caller making one \<open>add_point\<close> call per sample, in order, until one raises.\<close>

fun add_points ::
  "(datetime \<Rightarrow> string) \<Rightarrow> history \<Rightarrow> files \<Rightarrow> (datetime \<times> sample) list \<Rightarrow> (error + unit) \<times> history \<times> files" where
  "add_points strftime h fs [] = (Inr (), h, fs)"
| "add_points strftime h fs ((t, v) # ss) =
     (case add_point strftime h fs t v of
        (Inl e, h1, fs1) \<Rightarrow> (Inl e, h1, fs1)
      | (Inr _, h1, fs1) \<Rightarrow> add_points strftime h1 fs1 ss)"

definition active_range :: "history \<Rightarrow> timedelta \<Rightarrow> error + (slot list \<times> sample list) option" where
  \<comment> \<open>\<open>None\<close> is the result \<^verbatim>\<open>(None, None)\<close>\<close>
  "active_range h time_range =
     (if filled_points h \<le> 1 then Inr None
      else
        (case item (times_arr h) (int (filled_points h) - 1) of
           Inl e \<Rightarrow> Inl e
         | Inr t_last \<Rightarrow>
        (case minus_delta t_last time_range of
           Inl e \<Rightarrow> Inl e
         | Inr start_time \<Rightarrow>
        (case searchsorted (slice (times_arr h) 0 (int (filled_points h))) start_time Left of
           Inl e \<Rightarrow> Inl e
         | Inr start_point \<Rightarrow>
             Inr (Some (slice (times_arr h) (int start_point) (int (filled_points h)),
                        slice (values_arr h) (int start_point) (int (filled_points h))))))))"


subsection \<open>MASTCPHandler: the connection and its environment\<close>

text \<open>
  The handler owns the command table and a socket. What the socket and the clock do is
  not decided by the program, so the model carries it as a script: \<open>inbox\<close> lists what the
  coming \<^verbatim>\<open>socket.recv\<close> calls do (with nothing left, nothing arrives and the call times
  out), \<open>sends\<close> what the coming \<^verbatim>\<open>socket.send\<close> calls do (with nothing left, they are
  accepted), and \<open>clock\<close> the coming readings of \<^verbatim>\<open>time.time()\<close> and \<^verbatim>\<open>datetime.now()\<close>, in
  milliseconds. \<open>sent\<close> records every buffer written to the socket and \<open>emitted\<close> every
  signal given to the user interface. A clock script that ends is the error \<open>ClockEnd\<close>
  of the model, not of the program.
\<close>

datatype recv = Data string | RecvTimeout | RecvError

datatype signal = GotStatus "string list" int | Reconnect string

record handler =
  command_table :: "string \<rightharpoonup> int \<times> int"

record world =
  sent :: "string list"
  sends :: "error option list"
  inbox :: "recv list"
  clock :: "int list"
  emitted :: "signal list"
  closed :: bool
  retry_dialog_open :: bool

definition timeout_limit :: int where
  \<comment> \<open>3 seconds\<close>
  "timeout_limit = 3000"

definition socket_send :: "string \<Rightarrow> world \<Rightarrow> (error + unit) \<times> world" where
  "socket_send msg w =
     (case sends w of
        [] \<Rightarrow> (Inr (), w\<lparr>sent := sent w @ [msg]\<rparr>)
      | None # rest \<Rightarrow> (Inr (), w\<lparr>sent := sent w @ [msg], sends := rest\<rparr>)
      | Some e # rest \<Rightarrow> (Inl e, w\<lparr>sends := rest\<rparr>))"

definition socket_recv :: "nat \<Rightarrow> world \<Rightarrow> (error + string) \<times> world" where
  "socket_recv bufsize w =
     (case inbox w of
        [] \<Rightarrow> (Inl SocketTimeout, w)
      | Data d # rest \<Rightarrow>
          (if length d \<le> bufsize then (Inr d, w\<lparr>inbox := rest\<rparr>)
           else (Inr (take bufsize d), w\<lparr>inbox := Data (drop bufsize d) # rest\<rparr>))
      | RecvTimeout # rest \<Rightarrow> (Inl SocketTimeout, w\<lparr>inbox := rest\<rparr>)
      | RecvError # rest \<Rightarrow> (Inl SocketError, w\<lparr>inbox := rest\<rparr>))"

definition time_time :: "world \<Rightarrow> (error + int) \<times> world" where
  "time_time w =
     (case clock w of
        [] \<Rightarrow> (Inl ClockEnd, w)
      | t # ts \<Rightarrow> (Inr t, w\<lparr>clock := ts\<rparr>))"

text \<open>\<^verbatim>\<open>sep.join(args)\<close>\<close>

fun join :: "string \<Rightarrow> string list \<Rightarrow> string" where
  "join sep [] = []"
| "join sep [a] = a"
| "join sep (a # b # bs) = a @ sep @ join sep (b # bs)"

text \<open>
  The receive loop of \<open>send_command\<close>:
  \<^verbatim>\<open>while time.time()-start_time < self.timeout_limit: received += self.socket.recv(80); ...\<close>
  with its \<^verbatim>\<open>else\<close> branch raising \<^verbatim>\<open>socket.timeout\<close>. The readings of the clock are whole
  milliseconds here and are compared exactly, where the code subtracts floating-point
  seconds: the two comparisons can differ only for a reading within the rounding of a float
  of the limit.
\<close>

lemma socket_recv_clock: "socket_recv n w = (r, w') \<Longrightarrow> clock w' = clock w"
  by (auto simp: socket_recv_def split: list.splits recv.splits if_splits)

function recv_loop :: "int \<Rightarrow> string \<Rightarrow> world \<Rightarrow> (error + string) \<times> world" where
  "recv_loop start_time received w =
     (case clock w of
        [] \<Rightarrow> (Inl ClockEnd, w)
      | t # ts \<Rightarrow>
          (if t - start_time < timeout_limit then
             (case socket_recv 80 (w\<lparr>clock := ts\<rparr>) of
                (Inl e, w2) \<Rightarrow> (Inl e, w2)
              | (Inr chunk, w2) \<Rightarrow>
                  (if slice_from (received @ chunk) (- 2) = [CHR 0x8D, CHR 0x8A]
                   then (Inr (received @ chunk), w2)
                   else recv_loop start_time (received @ chunk) w2))
           else (Inl SocketTimeout, w\<lparr>clock := ts\<rparr>)))"
  by pat_completeness auto
termination
  by (relation "measure (\<lambda>(start_time, received, w). length (clock w))")
     (auto dest!: socket_recv_clock socket_recv_clock [OF sym])

declare recv_loop.simps [simp del]

definition send_command ::
  "handler \<Rightarrow> string \<Rightarrow> string list \<Rightarrow> world \<Rightarrow> (error + string list) \<times> world" where
  "send_command hdl command args w =
     (case command_table hdl command of
        None \<Rightarrow> (Inl ValueError, w)
      | Some (nargs, _) \<Rightarrow>
          if int (length args) \<noteq> nargs then (Inl ValueError, w)
          else
            (case encode_message
                    (if length args \<ge> 1 then command @ '' '' @ join '' '' args else command) of
               Inl e \<Rightarrow> (Inl e, w)
             | Inr encoded \<Rightarrow>
            (case socket_send encoded w of
               (Inl e, w1) \<Rightarrow> (Inl e, w1)
             | (Inr _, w1) \<Rightarrow>
            (case time_time w1 of
               (Inl e, w2) \<Rightarrow> (Inl e, w2)
             | (Inr start_time, w2) \<Rightarrow>
            (case recv_loop start_time [] w2 of
               (Inl e, w3) \<Rightarrow> (Inl e, w3)
             | (Inr received, w3) \<Rightarrow>
            (case decode_message received of
               Inl e \<Rightarrow> (Inl e, w3)
             | Inr response \<Rightarrow> (Inr response, w3)))))))"

text \<open>
  \<open>test_connection\<close> catches \<^verbatim>\<open>socket.error\<close>, so also \<^verbatim>\<open>socket.timeout\<close>; the message is then
  \<^verbatim>\<open>''\<close>, which is not \<^verbatim>\<open>['OK']\<close>.
\<close>

definition test_connection :: "handler \<Rightarrow> world \<Rightarrow> (error + bool) \<times> world" where
  "test_connection hdl w =
     (case send_command hdl ''MA'' [] w of
        (Inl e, w1) \<Rightarrow>
          (if e = SocketTimeout \<or> e = SocketError then (Inr False, w1) else (Inl e, w1))
      | (Inr message, w1) \<Rightarrow> (Inr (message = [''OK'']), w1))"

lemma recv_loop_clock:
  "recv_loop s r w = (x, w') \<Longrightarrow> length (clock w') \<le> length (clock w)"
proof (induction s r w arbitrary: x w' rule: recv_loop.induct)
  case (1 start_time received w)
  show ?case
  proof (cases "clock w")
    case Nil
    with "1.prems" show ?thesis by (subst (asm) recv_loop.simps) simp
  next
    case (Cons t ts)
    show ?thesis
    proof (cases "t - start_time < timeout_limit")
      case False
      with "1.prems" Cons show ?thesis by (subst (asm) recv_loop.simps) auto
    next
      case True
      obtain r2 w2 where sr: "socket_recv 80 (w\<lparr>clock := ts\<rparr>) = (r2, w2)"
        by (cases "socket_recv 80 (w\<lparr>clock := ts\<rparr>)")
      then have c2: "clock w2 = ts" using socket_recv_clock [OF sr] by simp
      show ?thesis
      proof (cases r2)
        case (Inl e)
        with "1.prems" Cons True sr c2 show ?thesis
          by (subst (asm) recv_loop.simps) auto
      next
        case (Inr chunk)
        show ?thesis
        proof (cases "slice_from (received @ chunk) (- 2) = [CHR 0x8D, CHR 0x8A]")
          case t: True
          with "1.prems" Cons True sr c2 Inr show ?thesis
            by (subst (asm) recv_loop.simps) auto
        next
          case f: False
          have "recv_loop start_time (received @ chunk) w2 = (x, w')"
            using "1.prems" Cons True sr Inr f by (subst (asm) recv_loop.simps) simp
          from "1.IH" [OF Cons True sr [symmetric] Inr f this] c2 Cons show ?thesis
            by simp
        qed
      qed
    qed
  qed
qed

lemma send_command_clock:
  "send_command hdl c a w = (x, w') \<Longrightarrow> length (clock w') \<le> length (clock w)"
proof -
  assume a: "send_command hdl c a w = (x, w')"
  have s: "clock w1 = clock w" if "socket_send e w = (r, w1)" for e r w1
    using that by (auto simp: socket_send_def split: list.splits option.splits)
  have t: "length (clock w2) \<le> length (clock w1)" if "time_time w1 = (r, w2)" for r w1 w2
    using that by (auto simp: time_time_def split: list.splits)
  show ?thesis
    using a
    by (auto simp: send_command_def split: option.splits if_splits sum.splits prod.splits
        dest!: s t recv_loop_clock)
qed

lemma test_connection_clock:
  "test_connection hdl w = (x, w') \<Longrightarrow> length (clock w') \<le> length (clock w)"
  by (auto simp: test_connection_def split: prod.splits sum.splits if_splits
      dest: send_command_clock)

subsection \<open>MASTCPThread: polling, retrying and reconnecting\<close>

text \<open>
  \<open>retry_connection\<close>: \<^verbatim>\<open>while time.time()-start_time < 4*handler.timeout_limit\<close>; a
  successful test is followed by \<^verbatim>\<open>self.sleep(handler.timeout_limit)\<close> and
  \<^verbatim>\<open>handler.socket.recv(128)\<close>, a failed one by \<^verbatim>\<open>self.msleep(100)\<close>. Sleeping only lets time
  pass, which the clock script shows.
\<close>

function retry_loop :: "handler \<Rightarrow> int \<Rightarrow> world \<Rightarrow> (error + bool) \<times> world" where
  "retry_loop hdl start_time w =
     (case clock w of
        [] \<Rightarrow> (Inl ClockEnd, w)
      | t # ts \<Rightarrow>
          (if t - start_time < 4 * timeout_limit then
             (case test_connection hdl (w\<lparr>clock := ts\<rparr>) of
                (Inl e, w2) \<Rightarrow> (Inl e, w2)
              | (Inr True, w2) \<Rightarrow>
                  (case socket_recv 128 w2 of
                     (Inl e, w3) \<Rightarrow> (Inl e, w3)
                   | (Inr _, w3) \<Rightarrow> (Inr True, w3))
              | (Inr False, w2) \<Rightarrow> retry_loop hdl start_time w2)
           else (Inr False, w\<lparr>clock := ts\<rparr>)))"
  by pat_completeness auto
termination
  by (relation "measure (\<lambda>(hdl, start_time, w). length (clock w))")
     (auto dest!: test_connection_clock test_connection_clock [OF sym])

declare retry_loop.simps [simp del]

definition retry_connection :: "handler \<Rightarrow> world \<Rightarrow> (error + bool) \<times> world" where
  "retry_connection hdl w =
     (case time_time w of
        (Inl e, w1) \<Rightarrow> (Inl e, w1)
      | (Inr start_time, w1) \<Rightarrow> retry_loop hdl start_time w1)"

text \<open>
  \<open>poll_status\<close>: \<^verbatim>\<open>response.append(spin_set[0])\<close> raises IndexError on an empty answer, and
  \<^verbatim>\<open>MASStatus(*response[1:])\<close> raises TypeError unless it gets the five fields.
\<close>

definition poll_status :: "handler \<Rightarrow> world \<Rightarrow> (error + string list \<times> int) \<times> world" where
  "poll_status hdl w =
     (case send_command hdl ''AS'' [] w of
        (Inl e, w1) \<Rightarrow> (Inl e, w1)
      | (Inr response, w1) \<Rightarrow>
     (case time_time w1 of
        (Inl e, w2) \<Rightarrow> (Inl e, w2)
      | (Inr status_time, w2) \<Rightarrow>
     (case send_command hdl ''VD'' [] w2 of
        (Inl e, w3) \<Rightarrow> (Inl e, w3)
      | (Inr spin_set, w3) \<Rightarrow>
     (case item spin_set 0 of
        Inl e \<Rightarrow> (Inl e, w3)
      | Inr s \<Rightarrow>
          (if length (slice_from (response @ [s]) 1) = 5
           then (Inr (slice_from (response @ [s]) 1, status_time), w3)
           else (Inl TypeError, w3))))))"

text \<open>
  What an iteration of the loop of \<open>run_connection\<close> finds, set by the other thread:
  \<open>running\<close> false; the queue empty; or a command at the head of the queue.
\<close>

datatype cycle = Stop | Poll | Command string "string list"

definition one_cycle :: "handler \<Rightarrow> cycle \<Rightarrow> world \<Rightarrow> (error + unit) \<times> world" where
  "one_cycle hdl c w =
     (case c of
        Stop \<Rightarrow> (Inr (), w)
      | Poll \<Rightarrow>
          (case poll_status hdl w of
             (Inl e, w1) \<Rightarrow> (Inl e, w1)
           | (Inr (status, status_time), w1) \<Rightarrow>
               (Inr (), w1\<lparr>emitted := emitted w1 @ [GotStatus status status_time]\<rparr>))
      | Command command args \<Rightarrow>
          (case send_command hdl command args w of
             (Inl e, w1) \<Rightarrow> (Inl e, w1)
           | (Inr _, w1) \<Rightarrow> (Inr (), w1)))"

text \<open>
  The loop of \<open>run_connection\<close>. Only \<^verbatim>\<open>socket.timeout\<close> is caught; when \<open>retry_connection\<close>
  returns false the timeout is raised again, and what \<open>retry_connection\<close> itself raises
  leaves the loop.
\<close>

fun run_loop :: "handler \<Rightarrow> cycle list \<Rightarrow> world \<Rightarrow> (error + unit) \<times> world" where
  "run_loop hdl [] w = (Inr (), w)"
| "run_loop hdl (Stop # cs) w = (Inr (), w)"
| "run_loop hdl (c # cs) w =
     (case one_cycle hdl c w of
        (Inr _, w1) \<Rightarrow> run_loop hdl cs w1
      | (Inl e, w1) \<Rightarrow>
          (if e = SocketTimeout then
             (case retry_connection hdl w1 of
                (Inl e2, w2) \<Rightarrow> (Inl e2, w2)
              | (Inr True, w2) \<Rightarrow> run_loop hdl cs w2
              | (Inr False, w2) \<Rightarrow> (Inl SocketTimeout, w2))
           else (Inl e, w1)))"

text \<open>\<open>run_connection\<close> from the opened handler on: the loop, then \<open>__exit__\<close> closes the socket.\<close>

definition run_connection :: "handler \<Rightarrow> cycle list \<Rightarrow> world \<Rightarrow> (error + unit) \<times> world" where
  "run_connection hdl agenda w =
     (case run_loop hdl agenda w of (r, w1) \<Rightarrow> (r, w1\<lparr>closed := True\<rparr>))"

definition timeout_message :: string where
  "timeout_message = ''Timeout error: Check that the MAS controller is in remote mode.''"

definition connection_message :: string where
  "connection_message =
     ''Connection error: Check that no other programs are connected to the MAS controller.''
     @ [CHR 0x0A] @ ''You may need to enter '' @ [CHR 0x22] @ ''set mas off'' @ [CHR 0x22]
     @ '' in RNMRA''"

text \<open>
  One pass of the loop of \<open>run\<close>, not offline, up to the wait for the dialog: the two
  handlers set \<open>retry_dialog_open\<close> and emit \<open>reconnect\<close>; any other exception leaves \<open>run\<close>.
\<close>

definition run_once :: "handler \<Rightarrow> cycle list \<Rightarrow> world \<Rightarrow> (error + unit) \<times> world" where
  "run_once hdl agenda w =
     (case run_connection hdl agenda w of
        (Inr u, w1) \<Rightarrow> (Inr u, w1)
      | (Inl e, w1) \<Rightarrow>
          (if e = SocketTimeout then
             (Inr (), w1\<lparr>retry_dialog_open := True,
                         emitted := emitted w1 @ [Reconnect timeout_message]\<rparr>)
           else if e = SocketError then
             (Inr (), w1\<lparr>retry_dialog_open := True,
                         emitted := emitted w1 @ [Reconnect connection_message]\<rparr>)
           else (Inl e, w1)))"

section \<open>Properties\<close>

text \<open>
  \<open>filled h ps\<close>: the buffer holds exactly the samples \<open>ps\<close>, oldest first, in its first
  \<open>filled_points\<close> slots, and its two arrays have the same length.
\<close>

definition filled :: "history \<Rightarrow> (datetime \<times> sample) list \<Rightarrow> bool" where
  "filled h ps \<longleftrightarrow>
     filled_points h = length ps \<and> length ps \<le> length (times_arr h) \<and>
     length (values_arr h) = length (times_arr h) \<and>
     take (length ps) (times_arr h) = map (DateTime \<circ> fst) ps \<and>
     take (length ps) (values_arr h) = map snd ps"


text \<open>The path \<open>save_name\<close> builds for two datetimes.\<close>

definition spin_log :: "(datetime \<Rightarrow> string) \<Rightarrow> string \<Rightarrow> datetime \<Rightarrow> datetime \<Rightarrow> string" where
  "spin_log strftime dir a b = path_join dir (strftime a @ ''__'' @ strftime b @ ''_spin_log.dat'')"

text \<open>The samples of \<open>ps\<close> that lie within \<open>w\<close> of the last one.\<close>

definition recent :: "(datetime \<times> sample) list \<Rightarrow> timedelta \<Rightarrow> (datetime \<times> sample) list" where
  "recent ps w = filter (\<lambda>p. fst (last ps) - w \<le> fst p) ps"


text \<open>
  The samples a buffer holds, read off its arrays (an unfilled slot reads as time 0), and
  the condition that every slot from \<open>filled_points\<close> on still holds the integer 0 it was
  allocated with.
\<close>

definition the_time :: "slot \<Rightarrow> datetime" where
  "the_time s = (case s of DateTime t \<Rightarrow> t | Zero \<Rightarrow> 0)"

definition samples :: "history \<Rightarrow> (datetime \<times> sample) list" where
  "samples h = zip (map the_time (take (filled_points h) (times_arr h)))
                   (take (filled_points h) (values_arr h))"

definition zero_beyond :: "history \<Rightarrow> bool" where
  "zero_beyond h \<longleftrightarrow> (\<forall>s \<in> set (drop (filled_points h) (times_arr h)). s = Zero)"

text \<open>
  The calls a client can make on a History, and what one call, or a list of calls made
  in order until one raises, leaves behind.
\<close>

datatype call =
    AddPoint datetime sample
  | ActiveRange timedelta
  | SaveHistory
  | BeginLogging datetime
  | WriteLog
  | EndLogging datetime
  | ArraysFull

fun perform :: "(datetime \<Rightarrow> string) \<Rightarrow> call \<Rightarrow> history \<Rightarrow> files \<Rightarrow> (error + unit) \<times> history \<times> files" where
  "perform strftime (AddPoint t v) h fs = add_point strftime h fs t v"
| "perform strftime (ActiveRange w) h fs =
     (case active_range h w of Inl e \<Rightarrow> (Inl e, h, fs) | Inr _ \<Rightarrow> (Inr (), h, fs))"
| "perform strftime SaveHistory h fs = (case save_history strftime h fs of (r, fs1) \<Rightarrow> (r, h, fs1))"
| "perform strftime (BeginLogging now) h fs = (case begin_logging now h of (r, h1) \<Rightarrow> (r, h1, fs))"
| "perform strftime WriteLog h fs = write_log strftime h fs"
| "perform strftime (EndLogging now) h fs = end_logging strftime now h fs"
| "perform strftime ArraysFull h fs = arrays_full strftime h fs"


text \<open>
  The invariant as the specification words it: the cursor within the capacity, the filled
  timestamps ascending, and, while logging, \<open>log_end\<close> at most the last filled timestamp.
\<close>

definition claimed_invariant :: "history \<Rightarrow> bool" where
  "claimed_invariant h \<longleftrightarrow>
     filled_points h \<le> length (times_arr h) \<and>
     sorted (map fst (samples h)) \<and>
     (logging h \<longrightarrow> samples h \<noteq> [] \<and> log_end h \<le> fst (last (samples h)))"

text \<open>
  The invariant the code keeps: the arrays have one length, above \<open>history_buffer\<close>; the
  filled slots hold datetimes, ascending; the other slots hold the integer 0; and, while
  logging, \<open>log_end\<close> is still \<open>log_start\<close> or is at most the last filled timestamp.
\<close>

definition invariant :: "history \<Rightarrow> bool" where
  "invariant h \<longleftrightarrow>
     filled h (samples h) \<and> zero_beyond h \<and> history_buffer < length (times_arr h) \<and>
     sorted (map fst (samples h)) \<and>
     (logging h \<longrightarrow> log_end h = log_start h \<or>
        (samples h \<noteq> [] \<and> log_end h \<le> fst (last (samples h))))"

text \<open>\<open>add_point\<close> is called with a timestamp not less than the last filled one.\<close>

definition admissible :: "call \<Rightarrow> history \<Rightarrow> bool" where
  "admissible c h \<longleftrightarrow>
     (case c of
        AddPoint t v \<Rightarrow> samples h = [] \<or> fst (last (samples h)) \<le> t
      | _ \<Rightarrow> True)"





text \<open>A buffer holding two samples, for the examples below.\<close>

definition two_samples :: history where
  "two_samples =
     (init 86400000000 None True 0)
       \<lparr>times_arr := [DateTime 1, DateTime 2] @ replicate 1998 Zero,
        values_arr := [Val 10, Val 20] @ replicate 1998 (Val 0),
        filled_points := 2\<rparr>"

text \<open>
  A command table and a script for the examples below: the answer to the status query
  \<^verbatim>\<open>AS\<close> never comes (the first \<open>recv\<close> times out), the answer \<^verbatim>\<open>OK\<close> to the test command
  \<^verbatim>\<open>MA\<close> comes at once, and nothing else arrives. \<open>ok_bytes\<close> is \<^verbatim>\<open>OK\r\n\<close> as the controller
  sends it.
\<close>

definition ok_bytes :: string where
  "ok_bytes = [CHR 0xCF, CHR 0xCB, CHR 0x8D, CHR 0x8A]"

definition example_handler :: handler where
  "example_handler =
     \<lparr>command_table = [''AS'' \<mapsto> (0, 5), ''VD'' \<mapsto> (0, 1), ''MA'' \<mapsto> (0, 1), ''BP'' \<mapsto> (1, 1)]\<rparr>"

definition lost_answer :: world where
  "lost_answer =
     \<lparr>sent = [], sends = [], inbox = [RecvTimeout, Data ok_bytes],
      clock = [0, 0, 3000, 3000, 3000, 3001], emitted = [], closed = False,
      retry_dialog_open = False\<rparr>"

section \<open>Theorems\<close>

subsection \<open>The codec\<close>

lemma of_char_lt_384: "of_char c < (384::nat)"
  by (rule less_trans [OF nat_of_char_less_256]) simp

lemma chr_each_up:
  "\<forall>c \<in> set m. of_char c < (128::nat) \<Longrightarrow>
   chr_each (\<lambda>n. n + 128) m = Inr (map (\<lambda>c. char_of (of_char c + (128::nat))) m)"
  by (induction m) (simp_all add: chr_py_def ord_py_def nat_add_distrib)

lemma chr_each_down:
  "\<forall>c \<in> set m. (128::nat) \<le> of_char c \<Longrightarrow>
   chr_each (\<lambda>n. n - 128) m = Inr (map (\<lambda>c. char_of (of_char c - (128::nat))) m)"
  by (induction m) (simp_all add: chr_py_def ord_py_def nat_diff_distrib of_char_lt_384)

lemma of_char_shifted:
  "of_char c < (128::nat) \<Longrightarrow>
   of_char (char_of (of_char c + (128::nat)) :: char) = of_char c + (128::nat)"
  by simp

lemma shift_roundtrip:
  "of_char c < (128::nat) \<Longrightarrow>
   char_of (of_char (char_of (of_char c + (128::nat)) :: char) - (128::nat)) = c"
  by (simp only: of_char_shifted) simp

lemma shift_roundtrip_map:
  "\<forall>c \<in> set m. of_char c < (128::nat) \<Longrightarrow>
   map (\<lambda>c. char_of (of_char c - (128::nat)) :: char)
     (map (\<lambda>c. char_of (of_char c + (128::nat)) :: char) m) = m"
  by (induction m) (simp_all add: shift_roundtrip del: of_char_of)

text \<open>
  C1. For every message \<open>m\<close> of 7-bit ASCII characters, \<open>encode_message m\<close> returns a
  buffer \<open>e\<close>, the buffer \<open>e\<close> followed by the byte 0x8A ends with the two bytes 0x8D 0x8A,
  and decoding it returns exactly the whitespace-split tokens of \<open>m\<close>.
\<close>

theorem decode_encode_roundtrip:
  assumes "\<forall>c \<in> set m. of_char c < (128::nat)"
  shows "\<exists>e. encode_message m = Inr e
           \<and> drop (length (e @ [CHR 0x8A]) - 2) (e @ [CHR 0x8A]) = [CHR 0x8D, CHR 0x8A]
           \<and> decode_message (e @ [CHR 0x8A]) = Inr (split m)"
proof -
  let ?up = "map (\<lambda>c. char_of (of_char c + (128::nat)) :: char) m"
  let ?buf = "?up @ [CHR 0x8D, CHR 0x8A]"
  have enc: "encode_message m = Inr (?up @ [CHR 0x8D])"
    using assms by (simp add: encode_message_def chr_each_up)
  have high: "\<forall>c \<in> set ?buf. (128::nat) \<le> of_char c"
    using assms by (auto simp: of_char_shifted simp del: of_char_of)
  have "map (\<lambda>c. char_of (of_char c - (128::nat)) :: char) ?buf = m @ [CHR 0x0D, CHR 0x0A]"
    using shift_roundtrip_map [OF assms] by (simp add: char_of_eq_iff)
  with chr_each_down [OF high]
  have dec: "decode_message ?buf = Inr (split m)"
    by (simp add: decode_message_def drop_last2_def)
  from enc dec show ?thesis by simp
qed

theorem decode_encode_roundtrip_witness:
  "encode_message ''AS 1'' = Inr [CHR 0xC1, CHR 0xD3, CHR 0xA0, CHR 0xB1, CHR 0x8D]
   \<and> decode_message [CHR 0xC1, CHR 0xD3, CHR 0xA0, CHR 0xB1, CHR 0x8D, CHR 0x8A] = Inr [''AS'', ''1'']"
proof -
  have a: "\<forall>c \<in> set ''AS 1''. of_char c < (128::nat)"
    by simp
  have e: "encode_message ''AS 1'' = Inr [CHR 0xC1, CHR 0xD3, CHR 0xA0, CHR 0xB1, CHR 0x8D]"
    by (simp add: encode_message_def chr_py_def ord_py_def char_of_eq_iff)
  have s: "split ''AS 1'' = [''AS'', ''1'']"
    by (simp add: split_def isspace_def)
  from decode_encode_roundtrip [OF a] e s show ?thesis
    by simp
qed

subsection \<open>Indexing, slicing and binary search\<close>

lemma nat_int_pred: "nat (int n - 1) = n - 1"
  by arith

lemma item_last: "item xs (- 1) = (if xs = [] then Inl IndexError else Inr (last xs))"
  by (cases "xs = []") (simp_all add: item_def last_conv_nth nat_int_pred)

lemma item_pred:
  "0 < n \<Longrightarrow> item xs (int n - 1) = (if n \<le> length xs then Inr (xs ! (n - 1)) else Inl IndexError)"
  by (auto simp: item_def Let_def nat_int_pred)

lemma clip_nat: "clip xs (int n) = min n (length xs)"
  by (simp add: clip_def)

lemma clip_zero: "clip xs 0 = 0"
  by (simp add: clip_def)

lemma clip_neg: "0 < n \<Longrightarrow> clip xs (- int n) = length xs - n"
  by (auto simp: clip_def max_def nat_diff_distrib)

lemma slice_nat: "slice xs (int a) (int b) = drop a (take b xs)"
  by (simp add: slice_def clip_nat min_def)

lemma slice_zero: "slice xs 0 (int b) = take b xs"
  by (simp add: slice_def clip_nat clip_zero min_def)

lemma slice_from_neg: "0 < n \<Longrightarrow> slice_from xs (- int n) = drop (length xs - n) xs"
  by (simp add: slice_from_def clip_neg)

lemma assign_prefix_fits:
  "length src = n \<Longrightarrow> n \<le> length dst \<Longrightarrow> assign_prefix dst (int n) src = Inr (src @ drop n dst)"
  by (simp add: assign_prefix_def clip_nat)

lemma binsearch_spec:
  assumes "\<forall>i<length arr. goes_right sd (arr ! i) key = Inr (P i)"
    and "\<forall>i j. i \<le> j \<and> j < length arr \<and> P j \<longrightarrow> P i"
    and "lo \<le> hi" "hi \<le> length arr"
    and "\<forall>i<lo. P i" "\<forall>i. hi \<le> i \<and> i < length arr \<longrightarrow> \<not> P i"
  shows "\<exists>r. binsearch sd arr key lo hi = Inr r \<and> r \<le> length arr
             \<and> (\<forall>i<r. P i) \<and> (\<forall>i. r \<le> i \<and> i < length arr \<longrightarrow> \<not> P i)"
  using assms
proof (induction sd arr key lo hi rule: binsearch.induct)
  case (1 sd arr key lo hi)
  show ?case
  proof (cases "lo < hi")
    case False
    with "1.prems" have "lo = hi" by simp
    with "1.prems" show ?thesis
      by (subst binsearch.simps) auto
  next
    case True
    define mid where "mid = lo + (hi - lo) div 2"
    from True have mid: "lo \<le> mid" "mid < hi" by (auto simp: mid_def)
    with "1.prems" have g: "goes_right sd (arr ! mid) key = Inr (P mid)" by simp
    show ?thesis
    proof (cases "P mid")
      case t: True
      have below: "\<forall>i<mid + 1. P i"
      proof (intro allI impI)
        fix i assume "i < mid + 1"
        then have "i \<le> mid" by simp
        with t mid "1.prems"(2,4) show "P i" by (meson less_le_trans)
      qed
      have "\<exists>r. binsearch sd arr key (mid + 1) hi = Inr r \<and> r \<le> length arr
             \<and> (\<forall>i<r. P i) \<and> (\<forall>i. r \<le> i \<and> i < length arr \<longrightarrow> \<not> P i)"
      proof (rule "1.IH"(1) [OF True mid_def g _ "1.prems"(1,2) _ "1.prems"(4) below "1.prems"(6)])
        show "P mid = True" using t by simp
        show "mid + 1 \<le> hi" using mid by simp
      qed
      then show ?thesis
        using True g t by (subst binsearch.simps) (simp add: mid_def Let_def)
    next
      case f: False
      have above: "\<forall>i. mid \<le> i \<and> i < length arr \<longrightarrow> \<not> P i"
        using f "1.prems"(2) by blast
      have "\<exists>r. binsearch sd arr key lo mid = Inr r \<and> r \<le> length arr
             \<and> (\<forall>i<r. P i) \<and> (\<forall>i. r \<le> i \<and> i < length arr \<longrightarrow> \<not> P i)"
      proof (rule "1.IH"(2) [OF True mid_def g _ "1.prems"(1,2) mid(1) _ "1.prems"(5) above])
        show "P mid = False" using f by simp
        show "mid \<le> length arr" using mid "1.prems"(4) by simp
      qed
      then show ?thesis
        using True g f by (subst binsearch.simps) (simp add: mid_def Let_def)
    qed
  qed
qed

lemma goes_right_left: "goes_right Left (DateTime x) (DateTime k) = Inr (x < k)"
  by (simp add: goes_right_def slot_less_def)


lemma split_index:
  assumes "r \<le> length xs" "\<forall>i<r. Q (xs ! i)" "\<forall>i. r \<le> i \<and> i < length xs \<longrightarrow> \<not> Q (xs ! i)"
  shows "filter Q xs = take r xs" and "filter (\<lambda>x. \<not> Q x) xs = drop r xs"
proof -
  have a: "\<forall>x \<in> set (take r xs). Q x"
    using assms(1,2) by (auto simp: in_set_conv_nth)
  have b: "\<forall>x \<in> set (drop r xs). \<not> Q x"
    using assms(1,3) by (auto simp: in_set_conv_nth)
  have "filter Q xs = filter Q (take r xs) @ filter Q (drop r xs)"
    by (metis append_take_drop_id filter_append)
  with a b show "filter Q xs = take r xs"
    by (simp add: filter_id_conv filter_empty_conv)
  have "filter (\<lambda>x. \<not> Q x) xs = filter (\<lambda>x. \<not> Q x) (take r xs) @ filter (\<lambda>x. \<not> Q x) (drop r xs)"
    by (metis append_take_drop_id filter_append)
  with a b show "filter (\<lambda>x. \<not> Q x) xs = drop r xs"
    by (simp add: filter_id_conv filter_empty_conv)
qed

lemma searchsorted_sorted:
  assumes "sorted ts"
    and g: "\<forall>x. goes_right sd (DateTime x) (DateTime k) = Inr (Q x)"
    and mono: "\<forall>x y. x \<le> y \<and> Q y \<longrightarrow> Q x"
  shows "\<exists>r. searchsorted (map DateTime ts) (DateTime k) sd = Inr r \<and> r \<le> length ts
           \<and> (\<forall>i<r. Q (ts ! i)) \<and> (\<forall>i. r \<le> i \<and> i < length ts \<longrightarrow> \<not> Q (ts ! i))"
proof -
  let ?arr = "map DateTime ts"
  have 1: "\<forall>i<length ?arr. goes_right sd (?arr ! i) (DateTime k) = Inr (Q (ts ! i))"
    using g by simp
  have 2: "\<forall>i j. i \<le> j \<and> j < length ?arr \<and> Q (ts ! j) \<longrightarrow> Q (ts ! i)"
    using assms(1) mono by (auto simp: sorted_iff_nth_mono)
  have 3: "\<forall>i. length ?arr \<le> i \<and> i < length ?arr \<longrightarrow> \<not> Q (ts ! i)"
    by auto
  have "\<exists>r. binsearch sd ?arr (DateTime k) 0 (length ?arr) = Inr r \<and> r \<le> length ?arr
     \<and> (\<forall>i<r. Q (ts ! i)) \<and> (\<forall>i. r \<le> i \<and> i < length ?arr \<longrightarrow> \<not> Q (ts ! i))"
    by (rule binsearch_spec [where P = "\<lambda>i. Q (ts ! i)", OF 1 2 _ _ _ 3]) simp_all
  then show ?thesis
    by (simp add: searchsorted_def)
qed

lemma searchsorted_left:
  "sorted ts \<Longrightarrow> \<exists>r. searchsorted (map DateTime ts) (DateTime k) Left = Inr r \<and> r \<le> length ts
       \<and> (\<forall>i<r. ts ! i < k) \<and> (\<forall>i. r \<le> i \<and> i < length ts \<longrightarrow> \<not> ts ! i < k)"
  by (rule searchsorted_sorted) (auto simp: goes_right_left)





lemma save_name_ok:
  "save_name sf h (DateTime a) (DateTime b) = Inr (spin_log sf (log_dir h) a b)"
  by (simp add: save_name_def string_time_def spin_log_def)

subsection \<open>The buffer\<close>

lemma filledD:
  assumes "filled h ps"
  shows "filled_points h = length ps" "length ps \<le> length (times_arr h)"
    "length (values_arr h) = length (times_arr h)"
    "take (length ps) (times_arr h) = map (DateTime \<circ> fst) ps"
    "take (length ps) (values_arr h) = map snd ps"
  using assms by (simp_all add: filled_def)

lemma filled_nth:
  assumes "filled h ps" "i < length ps"
  shows "times_arr h ! i = DateTime (fst (ps ! i))" "values_arr h ! i = snd (ps ! i)"
proof -
  have "times_arr h ! i = take (length ps) (times_arr h) ! i"
    using assms(2) by simp
  then show "times_arr h ! i = DateTime (fst (ps ! i))"
    using assms by (simp add: filledD(4))
  have "values_arr h ! i = take (length ps) (values_arr h) ! i"
    using assms(2) by simp
  then show "values_arr h ! i = snd (ps ! i)"
    using assms by (simp add: filledD(5))
qed






lemma filled_log_end: "filled (h\<lparr>log_end := t\<rparr>) ps = filled h ps"
  by (simp add: filled_def)

lemma assign_prefix_compact:
  assumes "b < n" "length xs = n"
  shows "assign_prefix (replicate n z) (int n - int b) (slice_from xs (- (int n - int b)))
         = Inr (drop b xs @ replicate b z)"
proof -
  have 1: "clip (replicate n z) (int n - int b) = n - b"
    using assms by (simp add: clip_def nat_diff_distrib)
  have 2: "clip xs (- (int n - int b)) = b"
    using assms by (simp add: clip_def)
  have 3: "drop (n - b) (replicate n z) = replicate b z"
    using assms by simp
  show ?thesis
    unfolding assign_prefix_def slice_from_def Let_def 1 2 3
    using assms by simp
qed

lemma assign_prefix_grow:
  assumes "0 < n" "length xs = n"
  shows "assign_prefix (replicate (n + b) z) (int n) (slice_from xs (- int n))
         = Inr (xs @ replicate b z)"
proof -
  have 1: "clip (replicate (n + b) z) (int n) = n"
    by (simp add: clip_def)
  have 2: "clip xs (- int n) = 0"
    using assms by (simp add: clip_def)
  have 3: "drop n (replicate (n + b) z) = replicate b z"
    by simp
  show ?thesis
    unfolding assign_prefix_def slice_from_def Let_def 1 2 3
    using assms by simp
qed

lemma arrays_full_full:
  assumes f: "filled h0 ps" and full: "length ps = length (times_arr h0)"
    and B: "history_buffer < length ps"
    and flush: "(if logging h then write_log sf h fs else (Inr (), h, fs)) = (Inr (), h0, fs0)"
  shows "arrays_full sf h fs =
     (Inr (),
      (if fst (last ps) - fst (ps ! history_buffer) \<ge> history_length h0
       then h0\<lparr>filled_points := length ps - history_buffer,
               times_arr := drop history_buffer (times_arr h0) @ replicate history_buffer Zero,
               values_arr := drop history_buffer (values_arr h0) @ replicate history_buffer (Val 0)\<rparr>
       else h0\<lparr>filled_points := length ps,
               times_arr := times_arr h0 @ replicate history_buffer Zero,
               values_arr := values_arr h0 @ replicate history_buffer (Val 0)\<rparr>),
      fs0)"
proof -
  let ?n = "length ps"
  let ?B = history_buffer
  have "ps \<noteq> []" using B by (cases ps) simp_all
  then have ne: "ps \<noteq> []" "times_arr h0 \<noteq> []" using full by auto
  have lv: "length (values_arr h0) = ?n" using f full by (simp add: filledD(3))
  have tl: "item (times_arr h0) (- 1) = Inr (DateTime (fst (last ps)))"
    using filled_nth(1) [OF f, of "?n - 1"] ne full
    by (simp add: item_last last_conv_nth)
  have tb: "item (times_arr h0) (int ?B) = Inr (DateTime (fst (ps ! ?B)))"
    using filled_nth(1) [OF f B] B full by (simp add: item_nat)
  have sp: "span_ge (DateTime (fst (last ps))) (DateTime (fst (ps ! ?B))) (history_length h0)
            = Inr (fst (last ps) - fst (ps ! ?B) \<ge> history_length h0)"
    by (simp add: span_ge_def)
  show ?thesis
  proof (cases "fst (last ps) - fst (ps ! ?B) \<ge> history_length h0")
    case True
    have a1: "assign_prefix (replicate ?n Zero) (int ?n - int ?B) (slice_from (times_arr h0) (- (int ?n - int ?B)))
              = Inr (drop ?B (times_arr h0) @ replicate ?B Zero)"
      using B full by (intro assign_prefix_compact) simp_all
    have a2: "assign_prefix (replicate ?n (Val 0)) (int ?n - int ?B) (slice_from (values_arr h0) (- (int ?n - int ?B)))
              = Inr (drop ?B (values_arr h0) @ replicate ?B (Val 0))"
      using B lv by (intro assign_prefix_compact) simp_all
    show ?thesis
      using True flush tl tb sp a1 a2 full B
      by (simp add: arrays_full_def allocate_arrays_def Let_def)
  next
    case False
    have pos: "0 < ?n" using ne by simp
    have a1: "assign_prefix (replicate (?n + ?B) Zero) (int ?n) (slice_from (times_arr h0) (- int ?n))
              = Inr (times_arr h0 @ replicate ?B Zero)"
      using full pos by (intro assign_prefix_grow) simp_all
    have a2: "assign_prefix (replicate (?n + ?B) (Val 0)) (int ?n) (slice_from (values_arr h0) (- int ?n))
              = Inr (values_arr h0 @ replicate ?B (Val 0))"
      using lv pos by (intro assign_prefix_grow) simp_all
    show ?thesis
      using False flush tl tb sp a1 a2 full
      by (simp add: arrays_full_def allocate_arrays_def Let_def nat_add_distrib)
  qed
qed

lemma filled_compact:
  assumes f: "filled h ps" and full: "length ps = length (times_arr h)" and B: "b \<le> length ps"
  shows "filled (h\<lparr>filled_points := length ps - b,
               times_arr := drop b (times_arr h) @ replicate b Zero,
               values_arr := drop b (values_arr h) @ replicate b (Val 0)\<rparr>) (drop b ps)"
proof -
  have "drop b (times_arr h) = map (DateTime \<circ> fst) (drop b ps)"
    using filledD(4) [OF f] full by (simp add: drop_map)
  moreover have "drop b (values_arr h) = map snd (drop b ps)"
    using filledD(5) [OF f] filledD(3) [OF f] full by (simp add: drop_map)
  ultimately show ?thesis
    using full B filledD(3) [OF f] by (simp add: filled_def)
qed

lemma filled_grow:
  assumes f: "filled h ps"
  shows "filled (h\<lparr>filled_points := length ps,
               times_arr := times_arr h @ replicate b Zero,
               values_arr := values_arr h @ replicate b (Val 0)\<rparr>) ps"
  using filledD [OF f] by (simp add: filled_def)

lemma filled_snoc:
  assumes f: "filled h ps" and room: "length ps < length (times_arr h)"
  shows "filled (h\<lparr>times_arr := (times_arr h)[length ps := DateTime t],
                    values_arr := (values_arr h)[length ps := v],
                    filled_points := Suc (length ps)\<rparr>) (ps @ [(t, v)])"
  using filledD [OF f] room
  by (simp add: filled_def take_Suc_conv_app_nth)

lemma add_point_room:
  assumes f: "filled h ps" and room: "length ps < length (times_arr h)"
  shows "add_point sf h fs t v =
     (Inr (), h\<lparr>times_arr := (times_arr h)[length ps := DateTime t],
                 values_arr := (values_arr h)[length ps := v],
                 filled_points := Suc (length ps)\<rparr>, fs)"
  using filledD [OF f] room by (subst add_point.simps) (simp add: Let_def)



lemma add_points_room:
  assumes "filled h ps" "length ps + length ss \<le> length (times_arr h)"
  shows "\<exists>h'. add_points sf h fs ss = (Inr (), h', fs) \<and> filled h' (ps @ ss)
            \<and> length (times_arr h') = length (times_arr h)
            \<and> history_length h' = history_length h \<and> log_dir h' = log_dir h
            \<and> can_save h' = can_save h \<and> logging h' = logging h
            \<and> log_start h' = log_start h \<and> log_end h' = log_end h"
  using assms
proof (induction ss arbitrary: h ps)
  case Nil
  then show ?case by simp
next
  case (Cons s ss)
  obtain t v where s: "s = (t, v)" by (cases s)
  let ?h1 = "h\<lparr>times_arr := (times_arr h)[length ps := DateTime t],
                 values_arr := (values_arr h)[length ps := v],
                 filled_points := Suc (length ps)\<rparr>"
  have room: "length ps < length (times_arr h)" using Cons.prems(2) by simp
  have a: "add_point sf h fs t v = (Inr (), ?h1, fs)"
    by (rule add_point_room [OF Cons.prems(1) room])
  have f1: "filled ?h1 (ps @ [(t, v)])"
    by (rule filled_snoc [OF Cons.prems(1) room])
  have "length (ps @ [(t, v)]) + length ss \<le> length (times_arr ?h1)"
    using Cons.prems(2) by simp
  from Cons.IH [OF f1 this] a s show ?case by auto
qed









subsection \<open>Growth and compaction\<close>







subsection \<open>Range queries\<close>

lemma last_item:
  assumes f: "filled h ps" and ne: "ps \<noteq> []"
  shows "item (times_arr h) (int (filled_points h) - 1) = Inr (DateTime (fst (last ps)))"
proof -
  have n: "0 < length ps" using ne by simp
  show ?thesis
    using n filled_nth(1) [OF f, of "length ps - 1"]
    by (simp add: filledD(1,2) [OF f] item_pred last_conv_nth ne)
qed

lemma active_range_sorted:
  assumes f: "filled h ps" and s: "sorted (map fst ps)" and n: "2 \<le> length ps"
    and ir: "in_range (fst (last ps) - w)"
  shows "active_range h w = Inr (Some (map (DateTime \<circ> fst) (recent ps w), map snd (recent ps w)))"
    and "\<exists>k. recent ps w = drop k ps"
proof -
  have ne: "ps \<noteq> []" using n by (cases ps) simp_all
  define k where "k = fst (last ps) - w"
  obtain r where r: "searchsorted (map DateTime (map fst ps)) (DateTime k) Left = Inr r"
      "r \<le> length (map fst ps)" "\<forall>i<r. map fst ps ! i < k"
      "\<forall>i. r \<le> i \<and> i < length (map fst ps) \<longrightarrow> \<not> map fst ps ! i < k"
    using searchsorted_left [OF s, of k] by blast
  have "filter (\<lambda>p. \<not> fst p < k) ps = drop r ps"
    using r(2,3,4) by (intro split_index(2)) simp_all
  then have rec: "recent ps w = drop r ps"
    by (simp add: recent_def k_def not_less)
  then show "\<exists>k. recent ps w = drop k ps" by blast
  have t: "drop r (take (length ps) (times_arr h)) = map (DateTime \<circ> fst) (drop r ps)"
    by (simp add: filledD(4) [OF f] drop_map)
  have v: "drop r (take (length ps) (values_arr h)) = map snd (drop r ps)"
    by (simp add: filledD(5) [OF f] drop_map)
  show "active_range h w = Inr (Some (map (DateTime \<circ> fst) (recent ps w), map snd (recent ps w)))"
    using n r(1) last_item [OF f ne] t v ir
    by (simp add: active_range_def filledD(1,4) [OF f] minus_delta_def slice_zero slice_nat
        k_def rec)
qed

lemma active_range_overflow:
  assumes f: "filled h ps" and n: "2 \<le> length ps"
    and ir: "\<not> in_range (fst (last ps) - w)"
  shows "active_range h w = Inl OverflowError"
proof -
  have ne: "ps \<noteq> []" using n by (cases ps) simp_all
  show ?thesis
    using n ir last_item [OF f ne]
    by (simp add: active_range_def filledD(1) [OF f] minus_delta_def)
qed

text \<open>
  C5, as amended. With fewer than two filled samples \<open>active_range\<close> returns the empty
  result \<open>(None, None)\<close>. When the buffer holds the samples \<open>ps\<close>, at least two, with
  ascending timestamps, and the last timestamp minus the window is a datetime (it lies
  between \<^verbatim>\<open>datetime.min\<close> and \<^verbatim>\<open>datetime.max\<close>), it returns the times and the values of
  exactly the samples whose timestamp is at least that datetime, and these are a suffix of
  \<open>ps\<close>. When the last timestamp minus the window is no datetime, it raises OverflowError.
\<close>

theorem active_range_suffix:
  "(filled_points h \<le> 1 \<longrightarrow> active_range h w = Inr None) \<and>
   (filled h ps \<and> sorted (map fst ps) \<and> 2 \<le> length ps \<and> in_range (fst (last ps) - w) \<longrightarrow>
      active_range h w = Inr (Some (map (DateTime \<circ> fst) (recent ps w), map snd (recent ps w)))
      \<and> (\<exists>k. recent ps w = drop k ps)) \<and>
   (filled h ps \<and> 2 \<le> length ps \<and> \<not> in_range (fst (last ps) - w) \<longrightarrow>
      active_range h w = Inl OverflowError)"
  using active_range_sorted [of h ps w] active_range_overflow [of h ps w]
  by (simp add: active_range_def)

theorem active_range_suffix_witness:
  "active_range (init 5 None True 0) 3 = Inr None \<and>
   (\<exists>h. add_points (\<lambda>t. []) (init 5 None True 0) Map.empty
           [(1, Val 10), (4, Val 20), (5, Masked), (8, Val 40)] = (Inr (), h, Map.empty)
       \<and> active_range h 3 = Inr (Some ([DateTime 5, DateTime 8], [Masked, Val 40]))
       \<and> active_range h 9 = Inl OverflowError)"
proof -
  let ?h0 = "init 5 None True 0"
  let ?ps = "[(1, Val 10), (4, Val 20), (5, Masked), (8, Val 40)] :: (datetime \<times> sample) list"
  have e: "filled ?h0 []"
    by (simp add: filled_def init_def allocate_arrays_def)
  have "length [] + length ?ps \<le> length (times_arr ?h0)"
    by (simp add: init_def allocate_arrays_def history_buffer_def)
  from add_points_room [OF e this, of "\<lambda>t. []" Map.empty]
  obtain h where h: "add_points (\<lambda>t. []) ?h0 Map.empty ?ps = (Inr (), h, Map.empty)" "filled h ?ps"
    by auto
  have z: "filled_points ?h0 \<le> 1"
    by (simp add: init_def allocate_arrays_def)
  have r: "recent ?ps 3 = [(5, Masked), (8, Val 40)]"
    by (simp add: recent_def)
  have i3: "in_range (fst (last ?ps) - 3)" and i9: "\<not> in_range (fst (last ?ps) - 9)"
    by (simp_all add: in_range_def datetime_min_def datetime_max_def)
  from active_range_suffix [of ?h0 3 "[]"] z have 1: "active_range ?h0 3 = Inr None"
    by simp
  from active_range_suffix [of h 3 ?ps] h(2) i3
  have 2: "active_range h 3 = Inr (Some ([DateTime 5, DateTime 8], [Masked, Val 40]))"
    by (simp add: r)
  from active_range_suffix [of h 9 ?ps] h(2) i9
  have 3: "active_range h 9 = Inl OverflowError"
    by simp
  from 1 2 3 h(1) show ?thesis by blast
qed

text \<open>
  C5 as stated fails for a window that reaches back before \<^verbatim>\<open>datetime.min\<close>. A new buffer
  receives two samples, of 2020-01-01 00:00:00 and of one second later (63713433600000000
  and 63713433601000000 microseconds after \<^verbatim>\<open>datetime.min\<close>); both calls return and the
  buffer holds the two samples, ascending. With a window of 800000 days (69120000000000000
  microseconds) every sample lies within the window of the last one, so that the claim has
  \<open>active_range\<close> return both; it raises OverflowError.
\<close>

theorem window_before_datetime_min_counterexample:
  "fst (add_points str_int (init 86400000000 None True 63713433600000000) Map.empty
          [(63713433600000000, Val 10), (63713433601000000, Val 20)]) = Inr ()
   \<and> filled (fst (snd (add_points str_int (init 86400000000 None True 63713433600000000) Map.empty
          [(63713433600000000, Val 10), (63713433601000000, Val 20)])))
        [(63713433600000000, Val 10), (63713433601000000, Val 20)]
   \<and> sorted (map fst [(63713433600000000 :: datetime, Val 10), (63713433601000000, Val 20)])
   \<and> recent [(63713433600000000, Val 10), (63713433601000000, Val 20)] 69120000000000000
        = [(63713433600000000, Val 10), (63713433601000000, Val 20)]
   \<and> active_range (fst (snd (add_points str_int (init 86400000000 None True 63713433600000000) Map.empty
          [(63713433600000000, Val 10), (63713433601000000, Val 20)]))) 69120000000000000
        = Inl OverflowError"
proof -
  let ?h0 = "init 86400000000 None True 63713433600000000"
  let ?ps = "[(63713433600000000, Val 10), (63713433601000000, Val 20)] :: (datetime \<times> sample) list"
  have e: "filled ?h0 []"
    by (simp add: filled_def init_def allocate_arrays_def)
  have "length [] + length ?ps \<le> length (times_arr ?h0)"
    by (simp add: init_def allocate_arrays_def history_buffer_def)
  from add_points_room [OF e this, of str_int Map.empty]
  obtain h where h: "add_points str_int ?h0 Map.empty ?ps = (Inr (), h, Map.empty)" "filled h ?ps"
    by auto
  have i: "\<not> in_range (fst (last ?ps) - 69120000000000000)"
    by (simp add: in_range_def datetime_min_def)
  have o: "active_range h 69120000000000000 = Inl OverflowError"
    by (rule active_range_overflow [OF h(2) _ i]) simp
  have r: "recent ?ps 69120000000000000 = ?ps"
    by (simp add: recent_def)
  show ?thesis
    unfolding h(1) using h(2) o r by simp
qed

subsection \<open>Saving and logging\<close>





text \<open>
  C10. \<open>begin_logging\<close> does not look at \<open>can_save\<close>: when logging is off it returns and
  turns logging on. With logging on and \<open>can_save\<close> false, \<open>write_log\<close>, \<open>end_logging\<close> and
  \<open>arrays_full\<close> raise RuntimeError, and so does \<open>add_point\<close> on full arrays; each leaves the
  object, so the arrays and \<open>filled_points\<close>, and the files as they were.
\<close>

theorem logging_without_can_save:
  "(\<not> logging h \<longrightarrow>
      begin_logging now h = (Inr (), h\<lparr>log_start := now, log_end := now, logging := True\<rparr>)) \<and>
   (logging h \<and> \<not> can_save h \<longrightarrow>
      write_log sf h fs = (Inl RuntimeError, h, fs) \<and>
      end_logging sf now h fs = (Inl RuntimeError, h, fs) \<and>
      arrays_full sf h fs = (Inl RuntimeError, h, fs) \<and>
      (\<not> filled_points h < length (times_arr h) \<longrightarrow>
         add_point sf h fs t v = (Inl RuntimeError, h, fs)))"
proof -
  have "add_point sf h fs t v = (Inl RuntimeError, h, fs)"
    if "arrays_full sf h fs = (Inl RuntimeError, h, fs)" "\<not> filled_points h < length (times_arr h)"
    using that by (subst add_point.simps) simp
  then show ?thesis
    by (simp add: begin_logging_def write_log_def end_logging_def arrays_full_def)
qed

theorem logging_without_can_save_witness:
  "begin_logging 7 (init 5 (Some ''logs'') False 0)
     = (Inr (), (init 5 (Some ''logs'') False 0)\<lparr>log_start := 7, log_end := 7, logging := True\<rparr>) \<and>
   end_logging (\<lambda>t. ''T'') 9 ((init 5 (Some ''logs'') False 0)\<lparr>log_start := 7, log_end := 7, logging := True\<rparr>) Map.empty
     = (Inl RuntimeError, (init 5 (Some ''logs'') False 0)\<lparr>log_start := 7, log_end := 7, logging := True\<rparr>, Map.empty) \<and>
   (\<exists>h. add_points (\<lambda>t. ''T'') (init 5 (Some ''logs'') False 0) Map.empty
           (map (\<lambda>i. (int i, Val 0)) [0..<2000]) = (Inr (), h, Map.empty)
        \<and> begin_logging 2000 h = (Inr (), h\<lparr>log_start := 2000, log_end := 2000, logging := True\<rparr>)
        \<and> add_point (\<lambda>t. ''T'') (h\<lparr>log_start := 2000, log_end := 2000, logging := True\<rparr>) Map.empty 2001 (Val 1)
            = (Inl RuntimeError, h\<lparr>log_start := 2000, log_end := 2000, logging := True\<rparr>, Map.empty))"
proof -
  let ?h = "init 5 (Some ''logs'') False 0"
  let ?h1 = "?h\<lparr>log_start := 7, log_end := 7, logging := True\<rparr>"
  let ?ss = "map (\<lambda>i. (int i, Val 0)) [0..<2000]"
  have a: "\<not> logging ?h" by (simp add: init_def allocate_arrays_def)
  have b: "logging ?h1 \<and> \<not> can_save ?h1" by (simp add: init_def allocate_arrays_def)
  from logging_without_can_save [of ?h 7 "\<lambda>t. ''T''" Map.empty 8 "Val 1"] a
  have 1: "begin_logging 7 ?h = (Inr (), ?h1)" by simp
  from logging_without_can_save [of ?h1 9 "\<lambda>t. ''T''" Map.empty 8 "Val 1"] b
  have 2: "end_logging (\<lambda>t. ''T'') 9 ?h1 Map.empty = (Inl RuntimeError, ?h1, Map.empty)" by simp
  have e: "filled ?h []"
    by (simp add: filled_def init_def allocate_arrays_def)
  have "length [] + length ?ss \<le> length (times_arr ?h)"
    by (simp add: init_def allocate_arrays_def history_buffer_def)
  from add_points_room [OF e this, of "\<lambda>t. ''T''" Map.empty]
  obtain h where h: "add_points (\<lambda>t. ''T'') ?h Map.empty ?ss = (Inr (), h, Map.empty)"
      "filled h ?ss" "length (times_arr h) = length (times_arr ?h)"
      "can_save h = can_save ?h" "logging h = logging ?h"
    by auto
  let ?h2 = "h\<lparr>log_start := 2000, log_end := 2000, logging := True\<rparr>"
  have nl: "\<not> logging h" and ns: "\<not> can_save h"
    using h(4,5) by (simp_all add: init_def allocate_arrays_def)
  have full: "\<not> filled_points h < length (times_arr h)"
    using filledD(1) [OF h(2)] h(3) by (simp add: init_def allocate_arrays_def history_buffer_def)
  from logging_without_can_save [of h 2000 "\<lambda>t. ''T''" Map.empty 8 "Val 1"] nl
  have 3: "begin_logging 2000 h = (Inr (), ?h2)" by simp
  from logging_without_can_save [of ?h2 9 "\<lambda>t. ''T''" Map.empty 2001 "Val 1"] ns full
  have 4: "add_point (\<lambda>t. ''T'') ?h2 Map.empty 2001 (Val 1) = (Inl RuntimeError, ?h2, Map.empty)"
    by simp
  from 1 2 h(1) 3 4 show ?thesis by blast
qed

subsection \<open>The invariant\<close>

lemma samples_filled: "filled h ps \<Longrightarrow> samples h = ps"
proof -
  assume f: "filled h ps"
  have "zip (map the_time (map (DateTime \<circ> fst) ps)) (map snd ps) = ps"
    by (induction ps) (auto simp: the_time_def)
  then show ?thesis
    using f by (simp add: samples_def filledD [OF f])
qed

lemma less_length_nonempty: "n < length xs \<Longrightarrow> xs \<noteq> []"
  by (cases xs) simp_all

lemma replicate_two: "replicate (Suc (Suc n)) x = x # x # replicate n x"
  by simp

lemma two_samples_filled: "filled two_samples [(1, Val 10), (2, Val 20)]"
  by (simp add: filled_def two_samples_def init_def allocate_arrays_def)

lemma invariantI:
  assumes "filled h ps" "zero_beyond h" "history_buffer < length (times_arr h)"
    "sorted (map fst ps)"
    "logging h \<longrightarrow> log_end h = log_start h \<or> (ps \<noteq> [] \<and> log_end h \<le> fst (last ps))"
  shows "invariant h"
  using assms samples_filled [OF assms(1)] by (simp add: invariant_def)

lemma invariantD:
  assumes "invariant h"
  shows "filled h (samples h)" "zero_beyond h" "history_buffer < length (times_arr h)"
    "sorted (map fst (samples h))"
    "logging h \<longrightarrow> log_end h = log_start h \<or> (samples h \<noteq> [] \<and> log_end h \<le> fst (last (samples h)))"
  using assms by (simp_all add: invariant_def)

lemma write_log_result:
  assumes "write_log sf h fs = (r, h1, fs1)"
  shows "h1 = h \<or> (r = Inr () \<and> (\<exists>t. h1 = h\<lparr>log_end := t\<rparr>
            \<and> item (times_arr h) (int (filled_points h) - 1) = Inr (DateTime t)))"
proof (cases "logging h \<and> can_save h")
  case False
  then have "write_log sf h fs = (Inl RuntimeError, h, fs)"
    by (cases "logging h") (simp_all add: write_log_def)
  with assms show ?thesis by simp
next
  case True
  show ?thesis
  proof (cases "item (times_arr h) (int (filled_points h) - 1)")
    case (Inl e)
    with assms True show ?thesis by (simp add: write_log_def save_name_ok)
  next
    case (Inr s)
    show ?thesis
    proof (cases s)
      case Zero
      with assms True Inr show ?thesis
        by (simp add: write_log_def save_name_ok save_name_def string_time_def)
    next
      case (DateTime t)
      show ?thesis
      proof (cases "searchsorted (slice (times_arr h) 0 (int (filled_points h))) (DateTime (log_end h)) Right")
        case (Inl e)
        with assms True Inr DateTime show ?thesis
          by (simp add: write_log_def save_name_ok)
      next
        case r: (Inr k)
        obtain r2 fs2 where w: "write_points sf h fs (spin_log sf (log_dir h) (log_start h) (log_end h))
             (int k, int (filled_points h)) = (r2, fs2)"
          by (cases "write_points sf h fs (spin_log sf (log_dir h) (log_start h) (log_end h))
             (int k, int (filled_points h))")
        with assms True Inr DateTime r show ?thesis
          by (cases r2) (auto simp add: write_log_def save_name_ok)
      qed
    qed
  qed
qed

lemma last_slot_zero:
  assumes z: "zero_beyond h" and n: "filled_points h < length (times_arr h)"
  shows "last (times_arr h) = Zero"
proof -
  have "times_arr h \<noteq> []" using n by (cases "times_arr h") simp_all
  moreover have "drop (filled_points h) (times_arr h) \<noteq> []" using n by simp
  ultimately have "last (times_arr h) \<in> set (drop (filled_points h) (times_arr h))"
    by (metis last_drop last_in_set n)
  with z show ?thesis by (simp add: zero_beyond_def)
qed

lemma write_log_inv:
  assumes inv: "invariant h" and w: "write_log sf h fs = (r, h1, fs1)"
  shows "h1 = h \<or> (r = Inr () \<and> samples h \<noteq> [] \<and> h1 = h\<lparr>log_end := fst (last (samples h))\<rparr>)"
proof -
  note f = invariantD(1) [OF inv]
  from write_log_result [OF w] show ?thesis
  proof
    assume "h1 = h" then show ?thesis by simp
  next
    assume "r = Inr () \<and> (\<exists>t. h1 = h\<lparr>log_end := t\<rparr>
            \<and> item (times_arr h) (int (filled_points h) - 1) = Inr (DateTime t))"
    then obtain t where t: "r = Inr ()" "h1 = h\<lparr>log_end := t\<rparr>"
        "item (times_arr h) (int (filled_points h) - 1) = Inr (DateTime t)" by blast
    have ne: "samples h \<noteq> []"
    proof
      assume e: "samples h = []"
      then have z: "filled_points h = 0" using filledD(1) [OF f] by simp
      then have "filled_points h < length (times_arr h)"
        using less_length_nonempty [OF invariantD(3) [OF inv]] by simp
      from last_slot_zero [OF invariantD(2) [OF inv] this] t(3) z
      show False by (simp add: item_last split: if_splits)
    qed
    from last_item [OF f ne] t(3) have "t = fst (last (samples h))" by simp
    with t ne show ?thesis by simp
  qed
qed

lemma zero_beyond_log_end: "zero_beyond (h\<lparr>log_end := t\<rparr>) = zero_beyond h"
  by (simp add: zero_beyond_def)

lemma sorted_last_max:
  "sorted (map fst ps) \<Longrightarrow> p \<in> set ps \<Longrightarrow> fst p \<le> fst (last ps)"
  by (induction ps) (auto split: if_splits)

lemma invariant_flushed:
  assumes inv: "invariant h" and ne: "samples h \<noteq> []"
  shows "invariant (h\<lparr>log_end := fst (last (samples h))\<rparr>)"
  using invariantD [OF inv] ne
  by (intro invariantI [where ps = "samples h"])
     (simp_all add: filled_log_end zero_beyond_log_end)

lemma samples_log_end: "samples (h\<lparr>log_end := t\<rparr>) = samples h"
  by (simp add: samples_def)

lemma last_drop_same: "b < length ps \<Longrightarrow> last (drop b ps) = last ps"
  by simp

lemma flush_inv:
  assumes inv: "invariant h"
    and fl: "(if logging h then write_log sf h fs else (Inr (), h, fs)) = (r0, h0, fs0)"
  shows "invariant h0" "samples h0 = samples h" "times_arr h0 = times_arr h"
    "filled_points h0 = filled_points h" "r0 \<noteq> Inr () \<Longrightarrow> h0 = h"
    "history_length h0 = history_length h" "logging h0 = logging h"
    "log_start h0 = log_start h" "can_save h0 = can_save h" "log_dir h0 = log_dir h"
    "values_arr h0 = values_arr h"
proof -
  have c: "h0 = h \<or> (r0 = Inr () \<and> samples h \<noteq> [] \<and> h0 = h\<lparr>log_end := fst (last (samples h))\<rparr>)"
  proof (cases "logging h")
    case True
    with fl write_log_inv [OF inv, of sf fs r0 h0 fs0] show ?thesis by simp
  next
    case False
    with fl show ?thesis by simp
  qed
  then show "invariant h0" using inv invariant_flushed [OF inv] by auto
  from c show "samples h0 = samples h" by (auto simp: samples_log_end)
  from c show "times_arr h0 = times_arr h" by auto
  from c show "filled_points h0 = filled_points h" by auto
  from c show "r0 \<noteq> Inr () \<Longrightarrow> h0 = h" by auto
  from c show "history_length h0 = history_length h" by auto
  from c show "logging h0 = logging h" by auto
  from c show "log_start h0 = log_start h" by auto
  from c show "can_save h0 = can_save h" by auto
  from c show "log_dir h0 = log_dir h" by auto
  from c show "values_arr h0 = values_arr h" by auto
qed

lemma invariant_compact:
  assumes inv: "invariant h" and full: "filled_points h = length (times_arr h)"
  shows "invariant (h\<lparr>filled_points := length (samples h) - history_buffer,
               times_arr := drop history_buffer (times_arr h) @ replicate history_buffer Zero,
               values_arr := drop history_buffer (values_arr h) @ replicate history_buffer (Val 0)\<rparr>)"
    (is "invariant ?h1")
proof -
  let ?ps = "samples h"
  note f = invariantD(1) [OF inv]
  have n: "length ?ps = length (times_arr h)" using full filledD(1) [OF f] by simp
  have B: "history_buffer < length ?ps" using invariantD(3) [OF inv] n by simp
  have f1: "filled ?h1 (drop history_buffer ?ps)"
    using filled_compact [OF f n, of history_buffer] B by simp
  have z: "zero_beyond ?h1"
    using n by (simp add: zero_beyond_def)
  have s: "sorted (map fst (drop history_buffer ?ps))"
    using invariantD(4) [OF inv] by (simp add: drop_map [symmetric] sorted_wrt_drop)
  have ne: "drop history_buffer ?ps \<noteq> []" using B by simp
  show ?thesis
    using invariantD(3,5) [OF inv] n B ne
    by (intro invariantI [OF f1 z _ s]) (auto simp: last_drop_same)
qed

lemma invariant_grow:
  assumes inv: "invariant h" and full: "filled_points h = length (times_arr h)"
  shows "invariant (h\<lparr>filled_points := length (samples h),
               times_arr := times_arr h @ replicate history_buffer Zero,
               values_arr := values_arr h @ replicate history_buffer (Val 0)\<rparr>)"
    (is "invariant ?h1")
proof -
  let ?ps = "samples h"
  note f = invariantD(1) [OF inv]
  have n: "length ?ps = length (times_arr h)" using full filledD(1) [OF f] by simp
  have f1: "filled ?h1 ?ps"
    using filled_grow [OF f, of history_buffer] by simp
  have z: "zero_beyond ?h1"
    using n by (simp add: zero_beyond_def)
  show ?thesis
    using invariantD(3,4,5) [OF inv]
    by (intro invariantI [OF f1 z]) auto
qed

lemma arrays_full_inv:
  assumes inv: "invariant h" and a: "arrays_full sf h fs = (r, h1, fs1)"
  shows "invariant h1"
    and "r = Inr () \<Longrightarrow> filled_points h = length (times_arr h) \<Longrightarrow>
         filled_points h1 < length (times_arr h1) \<and> samples h1 \<noteq> []
         \<and> last (samples h1) = last (samples h)"
proof -
  obtain r0 h0 fs0 where fl: "(if logging h then write_log sf h fs else (Inr (), h, fs)) = (r0, h0, fs0)"
    by (metis prod_cases3)
  note i0 = flush_inv [OF inv fl]
  have goal: "invariant h1 \<and> (r = Inr () \<longrightarrow> filled_points h = length (times_arr h) \<longrightarrow>
         filled_points h1 < length (times_arr h1) \<and> samples h1 \<noteq> []
         \<and> last (samples h1) = last (samples h))"
  proof (cases r0)
    case (Inl e)
    with a fl have "h1 = h0" "r = Inl e" by (simp_all add: arrays_full_def)
    with i0(1) show ?thesis by simp
  next
    case (Inr u)
    then have fl': "(if logging h then write_log sf h fs else (Inr (), h, fs)) = (Inr (), h0, fs0)"
      using fl by simp
    note f0 = invariantD(1) [OF i0(1)]
    have B: "history_buffer < length (times_arr h0)" using invariantD(3) [OF i0(1)] .
    have tne: "times_arr h0 \<noteq> []" using less_length_nonempty [OF B] .
    show ?thesis
    proof (cases "filled_points h0 < length (times_arr h0)")
      case True
      have "last (times_arr h0) = Zero"
        by (rule last_slot_zero [OF invariantD(2) [OF i0(1)] True])
      then have "arrays_full sf h fs = (Inl TypeError, h0, fs0)"
        using fl' tne B by (simp add: arrays_full_def item_last item_nat span_ge_def)
      with a i0(1) show ?thesis by auto
    next
      case False
      then have full: "length (samples h0) = length (times_arr h0)"
        using filledD(1,2) [OF f0] by simp
      have B1: "history_buffer < length (samples h0)" using B full by simp
      have fp: "filled_points h0 = length (times_arr h0)" using full filledD(1) [OF f0] by simp
      note af = arrays_full_full [OF f0 full B1 fl']
      show ?thesis
      proof (cases "fst (last (samples h0)) - fst (samples h0 ! history_buffer) \<ge> history_length h0")
        case d: True
        let ?h1 = "h0\<lparr>filled_points := length (samples h0) - history_buffer,
               times_arr := drop history_buffer (times_arr h0) @ replicate history_buffer Zero,
               values_arr := drop history_buffer (values_arr h0) @ replicate history_buffer (Val 0)\<rparr>"
        have e: "h1 = ?h1" "r = Inr ()" using af a d by simp_all
        have i1: "invariant ?h1" by (rule invariant_compact [OF i0(1) fp])
        have s1: "samples ?h1 = drop history_buffer (samples h0)"
          using filled_compact [OF f0 full, of history_buffer] B1 by (intro samples_filled) simp
        show ?thesis
          using e i1 s1 B1 full i0(2) by (auto simp: history_buffer_def)
      next
        case d: False
        let ?h1 = "h0\<lparr>filled_points := length (samples h0),
               times_arr := times_arr h0 @ replicate history_buffer Zero,
               values_arr := values_arr h0 @ replicate history_buffer (Val 0)\<rparr>"
        have e: "h1 = ?h1" "r = Inr ()" using af a d by simp_all
        have i1: "invariant ?h1" by (rule invariant_grow [OF i0(1) fp])
        have s1: "samples ?h1 = samples h0"
          using filled_grow [OF f0, of history_buffer] by (intro samples_filled) simp
        have "samples h0 \<noteq> []" using less_length_nonempty [OF B1] .
        then show ?thesis
          using e i1 s1 full i0(2) by (auto simp: history_buffer_def)
      qed
    qed
  qed
  from goal show "invariant h1" by simp
  from goal show "r = Inr () \<Longrightarrow> filled_points h = length (times_arr h) \<Longrightarrow>
         filled_points h1 < length (times_arr h1) \<and> samples h1 \<noteq> []
         \<and> last (samples h1) = last (samples h)" by simp
qed

lemma zero_beyond_snoc:
  assumes "zero_beyond h"
  shows "zero_beyond (h\<lparr>times_arr := (times_arr h)[filled_points h := x],
                         values_arr := vs, filled_points := Suc (filled_points h)\<rparr>)"
proof -
  have "set (drop (Suc (filled_points h)) (times_arr h)) \<subseteq> set (drop (filled_points h) (times_arr h))"
    by (rule set_drop_subset_set_drop) simp
  with assms show ?thesis
    by (auto simp: zero_beyond_def)
qed

lemma sorted_snoc:
  assumes "sorted (map fst ps)" "ps = [] \<or> fst (last ps) \<le> t"
  shows "sorted (map fst (ps @ [(t, v)]))"
proof -
  have "\<forall>p \<in> set ps. fst p \<le> t"
    using assms sorted_last_max [OF assms(1)] by (cases "ps = []") fastforce+
  with assms(1) show ?thesis by (simp add: sorted_append)
qed

lemma add_point_room_inv:
  assumes inv: "invariant h" and room: "filled_points h < length (times_arr h)"
    and adm: "samples h = [] \<or> fst (last (samples h)) \<le> t"
  shows "\<exists>h'. add_point sf h fs t v = (Inr (), h', fs) \<and> invariant h'
           \<and> samples h' = samples h @ [(t, v)]
           \<and> log_end h' = log_end h \<and> log_start h' = log_start h \<and> logging h' = logging h
           \<and> can_save h' = can_save h \<and> log_dir h' = log_dir h"
proof -
  let ?ps = "samples h"
  note f = invariantD(1) [OF inv]
  have n: "filled_points h = length ?ps" by (rule filledD(1) [OF f])
  have room': "length ?ps < length (times_arr h)" using room n by simp
  let ?h1 = "h\<lparr>times_arr := (times_arr h)[length ?ps := DateTime t],
                 values_arr := (values_arr h)[length ?ps := v],
                 filled_points := Suc (length ?ps)\<rparr>"
  have a: "add_point sf h fs t v = (Inr (), ?h1, fs)"
    by (rule add_point_room [OF f room'])
  have f1: "filled ?h1 (?ps @ [(t, v)])"
    by (rule filled_snoc [OF f room'])
  have z: "zero_beyond ?h1"
    using zero_beyond_snoc [OF invariantD(2) [OF inv], where x = "DateTime t" and vs = "(values_arr h)[length ?ps := v]"]
    by (simp add: n [symmetric])
  have s: "sorted (map fst (?ps @ [(t, v)]))"
    by (rule sorted_snoc [OF invariantD(4) [OF inv] adm])
  have i1: "invariant ?h1"
    using invariantD(3,5) [OF inv] adm
    by (intro invariantI [OF f1 z _ s]) auto
  show ?thesis
    using a i1 samples_filled [OF f1] by simp
qed

lemma add_point_inv:
  assumes inv: "invariant h" and adm: "samples h = [] \<or> fst (last (samples h)) \<le> t"
    and a: "add_point sf h fs t v = (r, h1, fs1)"
  shows "invariant h1"
proof (cases "filled_points h < length (times_arr h)")
  case True
  from add_point_room_inv [OF inv True adm, where sf = sf and fs = fs and v = v] a show ?thesis by auto
next
  case False
  then have full: "filled_points h = length (times_arr h)"
    using filledD(1,2) [OF invariantD(1) [OF inv]] by simp
  obtain r' h' fs' where af: "arrays_full sf h fs = (r', h', fs')"
    by (metis prod_cases3)
  note i' = arrays_full_inv [OF inv af]
  show ?thesis
  proof (cases r')
    case (Inl e)
    with a af False have "h1 = h'" by (subst (asm) add_point.simps) simp
    with i'(1) show ?thesis by simp
  next
    case (Inr u)
    then have ok: "filled_points h' < length (times_arr h')" "samples h' \<noteq> []"
        "last (samples h') = last (samples h)"
      using i'(2) full by simp_all
    have ne: "samples h \<noteq> []"
      using full filledD(1) [OF invariantD(1) [OF inv]] less_length_nonempty [OF invariantD(3) [OF inv]]
      by auto
    have adm': "samples h' = [] \<or> fst (last (samples h')) \<le> t"
      using adm ne ok(3) by simp
    have "add_point sf h fs t v = add_point sf h' fs' t v"
      using af False Inr by (subst add_point.simps) simp
    with add_point_room_inv [OF i'(1) ok(1) adm', where sf = sf and fs = fs' and v = v] a show ?thesis by auto
  qed
qed

lemma end_logging_inv:
  assumes inv: "invariant h" and e: "end_logging sf now h fs = (r, h1, fs1)"
  shows "invariant h1"
proof (cases "logging h")
  case False
  with e show ?thesis using inv by (simp add: end_logging_def)
next
  case True
  obtain r0 h0 fs0 where w: "write_log sf h fs = (r0, h0, fs0)" by (metis prod_cases3)
  with True have fl: "(if logging h then write_log sf h fs else (Inr (), h, fs)) = (r0, h0, fs0)"
    by simp
  note i0 = flush_inv [OF inv fl]
  show ?thesis
  proof (cases r0)
    case (Inl e')
    with e True w have "h1 = h0" by (simp add: end_logging_def)
    with i0(1) show ?thesis by simp
  next
    case (Inr u)
    with e True w have h1: "h1 = h0\<lparr>logging := False, log_start := now, log_end := now\<rparr>"
      by (auto simp add: end_logging_def)
    have "samples h1 = samples h0" "filled h1 = filled h0" "zero_beyond h1 = zero_beyond h0"
      by (simp_all add: h1 samples_def filled_def zero_beyond_def fun_eq_iff)
    with invariantD [OF i0(1)] show ?thesis
      by (simp add: invariant_def h1)
  qed
qed

lemma begin_logging_inv:
  assumes inv: "invariant h" and b: "begin_logging now h = (r, h1)"
  shows "invariant h1"
proof (cases "logging h")
  case True
  with b inv show ?thesis by (simp add: begin_logging_def)
next
  case False
  with b have h1: "h1 = h\<lparr>log_start := now, log_end := now, logging := True\<rparr>"
    by (auto simp add: begin_logging_def)
  have "samples h1 = samples h" "filled h1 = filled h" "zero_beyond h1 = zero_beyond h"
    by (simp_all add: h1 samples_def filled_def zero_beyond_def fun_eq_iff)
  with invariantD [OF inv] show ?thesis
    by (simp add: invariant_def h1)
qed

text \<open>
  C7, as amended. Every call on a History (\<open>add_point\<close> with a timestamp not less than the
  last filled one, \<open>active_range\<close>, \<open>save_history\<close>, \<open>begin_logging\<close>, \<open>write_log\<close>,
  \<open>end_logging\<close>, \<open>arrays_full\<close>), whether it returns or raises, leaves the invariant in
  force: \<open>filled_points\<close> within the capacity, the filled timestamps ascending, and, while
  logging, \<open>log_end\<close> equal to \<open>log_start\<close> or at most the last filled timestamp.
\<close>

theorem invariant_preserved:
  assumes "invariant h" and "admissible c h"
  shows "invariant (fst (snd (perform sf c h fs)))
       \<and> filled_points (fst (snd (perform sf c h fs))) \<le> length (times_arr (fst (snd (perform sf c h fs))))"
proof -
  have "invariant (fst (snd (perform sf c h fs)))"
  proof (cases c)
    case (AddPoint t v)
    obtain r h1 fs1 where a: "add_point sf h fs t v = (r, h1, fs1)" by (metis prod_cases3)
    from assms(2) AddPoint have "samples h = [] \<or> fst (last (samples h)) \<le> t"
      by (simp add: admissible_def)
    from add_point_inv [OF assms(1) this a] a AddPoint show ?thesis by simp
  next
    case (ActiveRange w)
    with assms(1) show ?thesis by (simp split: sum.splits)
  next
    case SaveHistory
    with assms(1) show ?thesis by (simp split: prod.splits)
  next
    case (BeginLogging now)
    obtain r h1 where b: "begin_logging now h = (r, h1)" by (cases "begin_logging now h")
    from begin_logging_inv [OF assms(1) b] b BeginLogging show ?thesis by simp
  next
    case WriteLog
    obtain r h1 fs1 where w: "write_log sf h fs = (r, h1, fs1)" by (metis prod_cases3)
    from write_log_inv [OF assms(1) w] invariant_flushed [OF assms(1)] assms(1) w WriteLog
    show ?thesis by auto
  next
    case (EndLogging now)
    obtain r h1 fs1 where e: "end_logging sf now h fs = (r, h1, fs1)" by (metis prod_cases3)
    from end_logging_inv [OF assms(1) e] e EndLogging show ?thesis by simp
  next
    case ArraysFull
    obtain r h1 fs1 where a: "arrays_full sf h fs = (r, h1, fs1)" by (metis prod_cases3)
    from arrays_full_inv(1) [OF assms(1) a] a ArraysFull show ?thesis by simp
  qed
  then show ?thesis
    using filledD(1,2) [OF invariantD(1)] by simp
qed

lemma two_samples_reached:
  "add_points sf (init 86400000000 None True 0) Map.empty [(1, Val 10), (2, Val 20)]
   = (Inr (), two_samples, Map.empty)"
proof -
  have r: "replicate 2000 x = x # x # replicate 1998 x" for x :: 'a
    using replicate_two [of 1998 x] by simp
  show ?thesis
    by (simp add: add_point.simps two_samples_def init_def allocate_arrays_def history_buffer_def Let_def r)
qed

lemma two_samples_invariant: "invariant two_samples"
proof (rule invariantI [OF two_samples_filled])
  show "zero_beyond two_samples"
    by (simp add: zero_beyond_def two_samples_def init_def allocate_arrays_def)
  show "history_buffer < length (times_arr two_samples)"
    by (simp add: two_samples_def init_def allocate_arrays_def history_buffer_def)
  show "sorted (map fst [(1, Val 10), (2 :: datetime, Val 20)])"
    by simp
  show "logging two_samples \<longrightarrow> log_end two_samples = log_start two_samples \<or>
       ([(1, Val 10), (2, Val 20)] \<noteq> [] \<and> log_end two_samples \<le> fst (last [(1, Val 10), (2, Val 20)]))"
    by (simp add: two_samples_def init_def allocate_arrays_def)
qed

text \<open>
  C7 as stated fails: a buffer holding samples at times 1 and 2, not logging, satisfies the
  invariant of the specification; \<open>begin_logging\<close> with the clock at 5 returns and leaves
  \<open>logging\<close> true with \<open>log_end = 5\<close>, later than the last filled timestamp.
\<close>

theorem claimed_invariant_counterexample:
  "add_points str_int (init 86400000000 None True 0) Map.empty [(1, Val 10), (2, Val 20)]
     = (Inr (), two_samples, Map.empty)
   \<and> claimed_invariant two_samples
   \<and> fst (perform str_int (BeginLogging 5) two_samples Map.empty) = Inr ()
   \<and> \<not> claimed_invariant (fst (snd (perform str_int (BeginLogging 5) two_samples Map.empty)))"
proof -
  let ?ps = "[(1, Val 10), (2, Val 20)] :: (datetime \<times> sample) list"
  let ?h1 = "two_samples\<lparr>log_start := 5, log_end := 5, logging := True\<rparr>"
  have s: "samples two_samples = ?ps"
    by (rule samples_filled [OF two_samples_filled])
  have nl: "\<not> logging two_samples"
    by (simp add: two_samples_def init_def allocate_arrays_def)
  have fp: "filled_points two_samples \<le> length (times_arr two_samples)"
    by (simp add: two_samples_def init_def allocate_arrays_def)
  have 1: "claimed_invariant two_samples"
    using s nl fp by (simp add: claimed_invariant_def)
  have b: "perform str_int (BeginLogging 5) two_samples Map.empty = (Inr (), ?h1, Map.empty)"
    using nl by (simp add: begin_logging_def)
  have "samples ?h1 = ?ps"
    using s by (simp add: samples_def)
  then have 2: "\<not> claimed_invariant ?h1"
    by (simp add: claimed_invariant_def)
  from two_samples_reached [of str_int] 1 2 b show ?thesis by simp
qed

theorem invariant_preserved_witness:
  "invariant two_samples \<and> admissible (AddPoint 3 (Val 30)) two_samples
   \<and> invariant (fst (snd (perform (\<lambda>t. []) (AddPoint 3 (Val 30)) two_samples Map.empty)))
   \<and> invariant (fst (snd (perform (\<lambda>t. []) (BeginLogging 5) two_samples Map.empty)))"
proof -
  have s: "samples two_samples = [(1, Val 10), (2, Val 20)]"
    by (rule samples_filled [OF two_samples_filled])
  have a: "admissible (AddPoint 3 (Val 30)) two_samples"
    by (simp add: admissible_def s)
  have b: "admissible (BeginLogging 5) two_samples"
    by (simp add: admissible_def)
  from invariant_preserved [OF two_samples_invariant a, of "\<lambda>t. []" Map.empty]
    invariant_preserved [OF two_samples_invariant b, of "\<lambda>t. []" Map.empty]
    two_samples_invariant a
  show ?thesis by simp
qed

subsection \<open>Incremental logging\<close>







lemma last_append_cons:
  "last (xs @ y # ys) = last ((zs @ [y]) @ ys)"
  by simp








subsection \<open>The connection and the session loop\<close>

lemma socket_recv_sent: "socket_recv n w = (r, w') \<Longrightarrow> sent w' = sent w"
  by (auto simp: socket_recv_def split: list.splits recv.splits if_splits)

lemma recv_loop_sent:
  "recv_loop s r w = (x, w') \<Longrightarrow> sent w' = sent w"
proof (induction s r w arbitrary: x w' rule: recv_loop.induct)
  case (1 start_time received w)
  show ?case
  proof (cases "clock w")
    case Nil
    with "1.prems" show ?thesis by (subst (asm) recv_loop.simps) auto
  next
    case (Cons t ts)
    show ?thesis
    proof (cases "t - start_time < timeout_limit")
      case False
      with "1.prems" Cons show ?thesis by (subst (asm) recv_loop.simps) auto
    next
      case True
      obtain r2 w2 where sr: "socket_recv 80 (w\<lparr>clock := ts\<rparr>) = (r2, w2)"
        by (cases "socket_recv 80 (w\<lparr>clock := ts\<rparr>)")
      then have c2: "sent w2 = sent w" using socket_recv_sent [OF sr] by simp
      show ?thesis
      proof (cases r2)
        case (Inl e)
        with "1.prems" Cons True sr c2 show ?thesis
          by (subst (asm) recv_loop.simps) auto
      next
        case (Inr chunk)
        show ?thesis
        proof (cases "slice_from (received @ chunk) (- 2) = [CHR 0x8D, CHR 0x8A]")
          case t: True
          with "1.prems" Cons True sr c2 Inr show ?thesis
            by (subst (asm) recv_loop.simps) auto
        next
          case f: False
          have "recv_loop start_time (received @ chunk) w2 = (x, w')"
            using "1.prems" Cons True sr Inr f by (subst (asm) recv_loop.simps) simp
          from "1.IH" [OF Cons True sr [symmetric] Inr f this] c2 show ?thesis
            by simp
        qed
      qed
    qed
  qed
qed

lemma send_command_accepted:
  assumes t: "command_table hdl command = Some (int (length args), x)"
    and e: "encode_message (if length args \<ge> 1 then command @ '' '' @ join '' '' args else command) = Inr encoded"
    and s: "sends w = []"
  shows "sent (snd (send_command hdl command args w)) = sent w @ [encoded]"
proof -
  obtain w1 where w1: "socket_send encoded w = (Inr (), w1)" "sent w1 = sent w @ [encoded]"
    using s by (simp add: socket_send_def)
  have tt: "sent (snd (time_time w1)) = sent w1"
    by (simp add: time_time_def split: list.splits)
  show ?thesis
  proof (cases "time_time w1")
    case (Pair r2 w2)
    show ?thesis
    proof (cases r2)
      case (Inl e2)
      with t e w1 Pair tt show ?thesis by (simp add: send_command_def)
    next
      case (Inr start_time)
      obtain r3 w3 where rl: "recv_loop start_time [] w2 = (r3, w3)"
        by (cases "recv_loop start_time [] w2")
      from recv_loop_sent [OF rl] tt Pair have "sent w3 = sent w1" by simp
      with t e w1 Pair Inr rl show ?thesis
        by (simp add: send_command_def split: sum.splits)
    qed
  qed
qed

text \<open>
  C2. \<open>send_command\<close> raises ValueError for a command that is not in the command table,
  and for a command of the table given a number of arguments other than the table's; in
  both cases the world is as it was, so nothing was written to the socket. A command of
  the table with the right number of arguments, once encoded, is written to the socket.
\<close>

theorem send_command_validates:
  "(command_table hdl command = None \<longrightarrow>
      send_command hdl command args w = (Inl ValueError, w)) \<and>
   (command_table hdl command = Some (nargs, x) \<and> int (length args) \<noteq> nargs \<longrightarrow>
      send_command hdl command args w = (Inl ValueError, w)) \<and>
   (command_table hdl command = Some (int (length args), x) \<and> sends w = [] \<and>
    encode_message (if length args \<ge> 1 then command @ '' '' @ join '' '' args else command) = Inr encoded \<longrightarrow>
      sent (snd (send_command hdl command args w)) = sent w @ [encoded])"
  using send_command_accepted [of hdl command args x encoded w]
  by (simp add: send_command_def)

theorem send_command_validates_witness:
  "send_command example_handler ''ZZ'' [] lost_answer = (Inl ValueError, lost_answer) \<and>
   send_command example_handler ''BP'' [] lost_answer = (Inl ValueError, lost_answer) \<and>
   send_command example_handler ''MA'' [''1''] lost_answer = (Inl ValueError, lost_answer) \<and>
   sent (snd (send_command example_handler ''BP'' [''50''] lost_answer))
     = [[CHR 0xC2, CHR 0xD0, CHR 0xA0, CHR 0xB5, CHR 0xB0, CHR 0x8D]]"
proof -
  have t: "command_table example_handler ''ZZ'' = None"
    "command_table example_handler ''BP'' = Some (1, 1)"
    "command_table example_handler ''MA'' = Some (0, 1)"
    by (simp_all add: example_handler_def)
  have e: "encode_message (if length [''50''] \<ge> 1 then ''BP'' @ '' '' @ join '' '' [''50''] else ''BP'')
      = Inr [CHR 0xC2, CHR 0xD0, CHR 0xA0, CHR 0xB5, CHR 0xB0, CHR 0x8D]"
    by (simp add: encode_message_def chr_py_def ord_py_def char_of_eq_iff)
  have s: "sends lost_answer = []" "sent lost_answer = []"
    by (simp_all add: lost_answer_def)
  from send_command_validates [of example_handler "''ZZ''" "[]" lost_answer 0 0 "[]"] t(1)
  have 1: "send_command example_handler ''ZZ'' [] lost_answer = (Inl ValueError, lost_answer)"
    by simp
  from send_command_validates [of example_handler "''BP''" "[]" lost_answer 1 1 "[]"] t(2)
  have 2: "send_command example_handler ''BP'' [] lost_answer = (Inl ValueError, lost_answer)"
    by simp
  from send_command_validates [of example_handler "''MA''" "[''1'']" lost_answer 0 1 "[]"] t(3)
  have 3: "send_command example_handler ''MA'' [''1''] lost_answer = (Inl ValueError, lost_answer)"
    by simp
  from send_command_validates [of example_handler "''BP''" "[''50'']" lost_answer 1 1
      "[CHR 0xC2, CHR 0xD0, CHR 0xA0, CHR 0xB5, CHR 0xB0, CHR 0x8D]"] t(2) e s
  have 4: "sent (snd (send_command example_handler ''BP'' [''50''] lost_answer))
     = [[CHR 0xC2, CHR 0xD0, CHR 0xA0, CHR 0xB5, CHR 0xB0, CHR 0x8D]]"
    by simp
  from 1 2 3 4 show ?thesis by simp
qed

text \<open>
  C8 fails on the code. A status poll gets no answer and raises a timeout; inside
  \<open>retry_connection\<close>, well within the window of four timeouts, \<open>test_connection\<close> gets
  \<^verbatim>\<open>OK\<close> and returns true; nothing stale is left on the socket, so \<^verbatim>\<open>socket.recv(128)\<close> itself
  times out; \<open>retry_connection\<close> raises instead of returning true, the loop is left, the
  socket is closed, and \<open>run\<close> emits the reconnect signal.
\<close>

theorem reconnect_after_successful_probe:
  "one_cycle example_handler Poll lost_answer
     = (Inl SocketTimeout,
        lost_answer\<lparr>sent := [[CHR 0xC1, CHR 0xD3, CHR 0x8D]], inbox := [Data ok_bytes],
                    clock := [3000, 3000, 3000, 3001]\<rparr>)
   \<and> test_connection example_handler
        (lost_answer\<lparr>sent := [[CHR 0xC1, CHR 0xD3, CHR 0x8D]], inbox := [Data ok_bytes],
                    clock := [3000, 3001]\<rparr>)
     = (Inr True,
        lost_answer\<lparr>sent := [[CHR 0xC1, CHR 0xD3, CHR 0x8D], [CHR 0xCD, CHR 0xC1, CHR 0x8D]],
                    inbox := [], clock := []\<rparr>)
   \<and> retry_connection example_handler
        (lost_answer\<lparr>sent := [[CHR 0xC1, CHR 0xD3, CHR 0x8D]], inbox := [Data ok_bytes],
                    clock := [3000, 3000, 3000, 3001]\<rparr>)
     = (Inl SocketTimeout,
        lost_answer\<lparr>sent := [[CHR 0xC1, CHR 0xD3, CHR 0x8D], [CHR 0xCD, CHR 0xC1, CHR 0x8D]],
                    inbox := [], clock := []\<rparr>)
   \<and> run_once example_handler [Poll, Stop] lost_answer
     = (Inr (),
        lost_answer\<lparr>sent := [[CHR 0xC1, CHR 0xD3, CHR 0x8D], [CHR 0xCD, CHR 0xC1, CHR 0x8D]],
                    inbox := [], clock := [], closed := True, retry_dialog_open := True,
                    emitted := [Reconnect timeout_message]\<rparr>)"
  by code_simp

text \<open>
  With a stale answer left on the socket the same timeout is recovered: the loop goes on
  to its next iteration and no signal is emitted.
\<close>

lemma recovery_with_stale_bytes:
  "run_once example_handler [Poll, Stop] (lost_answer\<lparr>inbox := [RecvTimeout, Data ok_bytes, Data ok_bytes]\<rparr>)
     = (Inr (),
        lost_answer\<lparr>sent := [[CHR 0xC1, CHR 0xD3, CHR 0x8D], [CHR 0xCD, CHR 0xC1, CHR 0x8D]],
                    inbox := [], clock := [], closed := True\<rparr>)"
  by code_simp

end
